theory Spec2Isabelle
  imports Main "HOL-Library.Multiset"
begin

section \<open>Python strings\<close>

text \<open>
  A Python \<open>str\<close> is modelled as a \<open>string\<close> whose characters are the code points
  below 256. The operations below are the ones \<open>agent.py\<close>, \<open>agent_fixed.py\<close> and
  \<open>orchestrator.py\<close> call.
\<close>

definition isspace :: "char \<Rightarrow> bool" where
  \<comment> \<open>\<open>str.isspace\<close> on one character: tab, LF, VT, FF, CR, FS, GS, RS, US, space, NEL, NBSP.\<close>
  "isspace c = (c \<in> set [CHR 0x09, CHR 0x0A, CHR 0x0B, CHR 0x0C, CHR 0x0D, CHR 0x1C,
                          CHR 0x1D, CHR 0x1E, CHR 0x1F, CHR 0x20, CHR 0x85, CHR 0xA0])"

definition strip :: "string \<Rightarrow> string" where
  \<comment> \<open>\<open>s.strip()\<close>\<close>
  "strip s = rev (dropWhile isspace (rev (dropWhile isspace s)))"

fun startswith :: "string \<Rightarrow> string \<Rightarrow> bool" where
  \<comment> \<open>\<open>s.startswith(p)\<close>\<close>
  "startswith s [] = True"
| "startswith [] (p # ps) = False"
| "startswith (c # cs) (p # ps) = (c = p \<and> startswith cs ps)"

fun str_in :: "string \<Rightarrow> string \<Rightarrow> bool" where
  \<comment> \<open>\<open>sub in s\<close>\<close>
  "str_in sub [] = (sub = [])"
| "str_in sub (c # cs) = (startswith (c # cs) sub \<or> str_in sub cs)"

fun split_1 :: "string \<Rightarrow> string \<Rightarrow> string \<times> string option" where
  \<comment> \<open>\<open>s.split(sep, 1)\<close> for a non-empty \<open>sep\<close>: the text before the first occurrence of
      \<open>sep\<close> and, when there is one, the text after it (a list of one or two elements).\<close>
  "split_1 sep [] = ([], None)"
| "split_1 sep (c # cs) =
     (if startswith (c # cs) sep then ([], Some (drop (length sep) (c # cs)))
      else (case split_1 sep cs of (a, b) \<Rightarrow> (c # a, b)))"

datatype exn = IndexError | UnicodeEncodeError

definition str_of_exn :: "exn \<Rightarrow> string" where
  \<comment> \<open>\<open>str(e)\<close>. The text of a UnicodeEncodeError names the codec, the character and
      its position; no handler of the code modelled here formats one.\<close>
  "str_of_exn e =
     (case e of
        IndexError \<Rightarrow> ''list index out of range''
      | UnicodeEncodeError \<Rightarrow> ''character maps to <undefined>'')"

text \<open>
  \<open>print(s)\<close> writes \<open>s\<close> and a newline to \<open>sys.stdout\<close>, whose encoding is set when
  the process starts. \<open>encodable\<close> says which characters that encoding has; a text with
  any other character makes \<open>print\<close> raise UnicodeEncodeError. UTF-8 has every character
  of the model; the code page 1252 of a Windows console has none between 128 and 159.
\<close>

definition py_print :: "(char \<Rightarrow> bool) \<Rightarrow> string \<Rightarrow> exn + unit" where
  "py_print encodable s =
     (if list_all encodable (s @ [CHR 0x0A]) then Inr () else Inl UnicodeEncodeError)"

definition utf8_encodable :: "char \<Rightarrow> bool" where
  "utf8_encodable c = True"

definition cp1252_encodable :: "char \<Rightarrow> bool" where
  "cp1252_encodable c = ((of_char c :: nat) < 128 \<or> 160 \<le> (of_char c :: nat))"

definition split_at_1 :: "string \<Rightarrow> string \<Rightarrow> exn + string" where
  \<comment> \<open>\<open>s.split(sep, 1)[1]\<close>: raises IndexError when \<open>sep\<close> does not occur.\<close>
  "split_at_1 sep s = (case snd (split_1 sep s) of None \<Rightarrow> Inl IndexError | Some a \<Rightarrow> Inr a)"

definition split_at_0 :: "string \<Rightarrow> string \<Rightarrow> string" where
  \<comment> \<open>\<open>s.split(sep)[0]\<close>: the text before the first occurrence of \<open>sep\<close>.\<close>
  "split_at_0 sep s = fst (split_1 sep s)"

function replace_empty :: "string \<Rightarrow> string \<Rightarrow> string" where
  \<comment> \<open>\<open>s.replace(old, "")\<close> for a non-empty \<open>old\<close>: occurrences are removed left to right,
      without overlap.\<close>
  "replace_empty old [] = []"
| "replace_empty old (c # cs) =
     (if old \<noteq> [] \<and> startswith (c # cs) old
      then replace_empty old (drop (length old) (c # cs))
      else c # replace_empty old cs)"
  by pat_completeness auto
termination
  by (relation "measure (\<lambda>(old, s). length s)") auto

definition lower_char :: "char \<Rightarrow> char" where
  "lower_char c =
     (let n = (of_char c :: nat)
      in if (65 \<le> n \<and> n \<le> 90) \<or> (192 \<le> n \<and> n \<le> 214) \<or> (216 \<le> n \<and> n \<le> 222)
         then char_of (n + 32) else c)"

definition lower :: "string \<Rightarrow> string" where
  \<comment> \<open>\<open>s.lower()\<close>\<close>
  "lower s = map lower_char s"

section \<open>JSON values and parsed responses\<close>

datatype json =
    JNull
  | JBool bool
  | JInt int
  | JFloat string
  | JStr string
  | JArray "json list"
  | JObject "(string \<times> json) list"

fun dict_set :: "string \<Rightarrow> json \<Rightarrow> (string \<times> json) list \<Rightarrow> (string \<times> json) list" where
  \<comment> \<open>\<open>d[k] = v\<close> on a dictionary kept in insertion order.\<close>
  "dict_set k v [] = [(k, v)]"
| "dict_set k v ((k', v') # d) = (if k = k' then (k, v) # d else (k', v') # dict_set k v d)"

subsection \<open>\<open>json.loads\<close>\<close>

text \<open>
  \<open>json.loads\<close> belongs to Python's standard library, not to this repository. The
  decoder below follows the scanner of the \<open>json\<close> package: \<open>scan_once\<close> dispatches on
  the next character, objects and arrays are read item by item, and anything it cannot
  read is a \<open>JSONDecodeError\<close>, here \<open>None\<close>. A float keeps its lexeme. Two things stay
  outside the model: an escape \<open>\uXXXX\<close> whose code point is 256 or more has no
  character in \<open>string\<close> and is answered with \<open>None\<close>, and the interpreter's recursion
  limit on deeply nested input is not modelled. The first argument of the three mutually
  recursive functions is fuel: \<open>scan_array\<close> hands the text it received to
  \<open>scan_once\<close>, every other call comes after at least one character was consumed, so
  twice the length of the text and one more, the fuel \<open>json_loads\<close> starts with, is
  never used up (lemma \<open>scan_once_fuel\<close>).
\<close>

definition json_ws :: "char \<Rightarrow> bool" where
  "json_ws c = (c \<in> set [CHR 0x20, CHR 0x09, CHR 0x0A, CHR 0x0D])"

definition skip_ws :: "string \<Rightarrow> string" where
  "skip_ws s = dropWhile json_ws s"

definition is_digit :: "char \<Rightarrow> bool" where
  "is_digit c = (48 \<le> (of_char c :: nat) \<and> (of_char c :: nat) \<le> 57)"

definition hex_val :: "char \<Rightarrow> nat option" where
  "hex_val c =
     (let n = (of_char c :: nat)
      in if 48 \<le> n \<and> n \<le> 57 then Some (n - 48)
         else if 97 \<le> n \<and> n \<le> 102 then Some (n - 87)
         else if 65 \<le> n \<and> n \<le> 70 then Some (n - 55)
         else None)"

definition decode_uXXXX :: "string \<Rightarrow> nat option" where
  "decode_uXXXX s =
     (if length s < 4 then None
      else (case (hex_val (s ! 0), hex_val (s ! 1), hex_val (s ! 2), hex_val (s ! 3)) of
              (Some a, Some b, Some c, Some d) \<Rightarrow> Some (((a * 16 + b) * 16 + c) * 16 + d)
            | _ \<Rightarrow> None))"

definition backslash :: "char \<Rightarrow> char option" where
  "backslash e =
     (if e = CHR 0x22 then Some (CHR 0x22)
      else if e = CHR 0x5C then Some (CHR 0x5C)
      else if e = CHR ''/'' then Some (CHR ''/'')
      else if e = CHR ''b'' then Some (CHR 0x08)
      else if e = CHR ''f'' then Some (CHR 0x0C)
      else if e = CHR ''n'' then Some (CHR 0x0A)
      else if e = CHR ''r'' then Some (CHR 0x0D)
      else if e = CHR ''t'' then Some (CHR 0x09)
      else None)"

fun scanstring :: "string \<Rightarrow> (string \<times> string) option" where
  \<comment> \<open>From the character after the opening quote: the decoded string and the rest.\<close>
  "scanstring [] = None"
| "scanstring (c # cs) =
     (if c = CHR 0x22 then Some ([], cs)
      else if c = CHR 0x5C then
        (case cs of
           [] \<Rightarrow> None
         | e # cs' \<Rightarrow>
             if e = CHR ''u'' then
               (case decode_uXXXX cs' of
                  None \<Rightarrow> None
                | Some n \<Rightarrow>
                    if n < 256 then map_option (apfst ((#) (char_of n))) (scanstring (drop 4 cs'))
                    else None)
             else
               (case backslash e of
                  None \<Rightarrow> None
                | Some ch \<Rightarrow> map_option (apfst ((#) ch)) (scanstring cs')))
      else if (of_char c :: nat) < 32 then None
      else map_option (apfst ((#) c)) (scanstring cs))"

definition int_of_digits :: "string \<Rightarrow> int" where
  "int_of_digits ds = foldl (\<lambda>acc d. acc * 10 + (int (of_char d) - 48)) 0 ds"

definition int_of_lexeme :: "string \<Rightarrow> int" where
  \<comment> \<open>\<open>int(integer)\<close> for a lexeme \<open>-?\d+\<close>\<close>
  "int_of_lexeme l =
     (if startswith l ''-'' then - int_of_digits (drop 1 l) else int_of_digits l)"

text \<open>
  \<open>NUMBER_RE\<close> is \<open>(-?(?:0|[1-9]\d*))(\.\d+)?([eE][-+]?\d+)?\<close>. Each of its three groups
  is a function that gives the lexeme it matched and the rest of the text; the two
  optional groups match the empty lexeme when they do not apply.
\<close>

definition int_part :: "string \<Rightarrow> (string \<times> string) option" where
  "int_part s =
     (let sign = (if startswith s ''-'' then ''-'' else [])
      in case drop (length sign) s of
           [] \<Rightarrow> None
         | d # ds \<Rightarrow>
             if \<not> is_digit d then None
             else if d = CHR ''0'' then Some (sign @ [d], ds)
             else Some (sign @ d # takeWhile is_digit ds, dropWhile is_digit ds))"

definition frac_part :: "string \<Rightarrow> string \<times> string" where
  "frac_part s =
     (case s of
        p # f # r \<Rightarrow>
          if p = CHR ''.'' \<and> is_digit f
          then (p # f # takeWhile is_digit r, dropWhile is_digit r)
          else ([], s)
      | _ \<Rightarrow> ([], s))"

definition exp_part :: "string \<Rightarrow> string \<times> string" where
  "exp_part s =
     (case s of
        [] \<Rightarrow> ([], s)
      | e # r \<Rightarrow>
          if e \<noteq> CHR ''e'' \<and> e \<noteq> CHR ''E'' then ([], s)
          else
            (let sign = (if startswith r ''+'' \<or> startswith r ''-'' then take 1 r else [])
             in case drop (length sign) r of
                  [] \<Rightarrow> ([], s)
                | g # r' \<Rightarrow>
                    if is_digit g
                    then (e # sign @ g # takeWhile is_digit r', dropWhile is_digit r')
                    else ([], s)))"

definition match_number :: "string \<Rightarrow> (json \<times> string) option" where
  "match_number s =
     (case int_part s of
        None \<Rightarrow> None
      | Some (integer, r1) \<Rightarrow>
          (case frac_part r1 of
             (frac, r2) \<Rightarrow>
               (case exp_part r2 of
                  (exp, r3) \<Rightarrow>
                    if frac = [] \<and> exp = [] then Some (JInt (int_of_lexeme integer), r3)
                    else Some (JFloat (integer @ frac @ exp), r3))))"

fun scan_once :: "nat \<Rightarrow> string \<Rightarrow> (json \<times> string) option"
  and scan_object :: "nat \<Rightarrow> (string \<times> json) list \<Rightarrow> string \<Rightarrow> (json \<times> string) option"
  and scan_array :: "nat \<Rightarrow> json list \<Rightarrow> string \<Rightarrow> (json \<times> string) option" where
  "scan_once 0 s = None"
| "scan_once (Suc n) [] = None"
| "scan_once (Suc n) (c # cs) =
     (if c = CHR 0x22 then map_option (apfst JStr) (scanstring cs)
      else if c = CHR ''{'' then
        (let r = skip_ws cs
         in if startswith r ''}'' then Some (JObject [], drop 1 r)
            else if startswith r [CHR 0x22] then scan_object n [] r
            else None)
      else if c = CHR ''['' then
        (let r = skip_ws cs
         in if startswith r '']'' then Some (JArray [], drop 1 r)
            else scan_array n [] r)
      else if startswith (c # cs) ''null'' then Some (JNull, drop 4 (c # cs))
      else if startswith (c # cs) ''true'' then Some (JBool True, drop 4 (c # cs))
      else if startswith (c # cs) ''false'' then Some (JBool False, drop 5 (c # cs))
      else
        (case match_number (c # cs) of
           Some r \<Rightarrow> Some r
         | None \<Rightarrow>
             if startswith (c # cs) ''NaN'' then Some (JFloat ''NaN'', drop 3 (c # cs))
             else if startswith (c # cs) ''Infinity'' then Some (JFloat ''Infinity'', drop 8 (c # cs))
             else if startswith (c # cs) ''-Infinity''
             then Some (JFloat ''-Infinity'', drop 9 (c # cs))
             else None))"
| "scan_object 0 pairs s = None"
| "scan_object (Suc n) pairs s =
     \<comment> \<open>\<open>s\<close> starts with the quote that opens a key\<close>
     (case scanstring (drop 1 s) of
        None \<Rightarrow> None
      | Some (key, r1) \<Rightarrow>
          (let r2 = skip_ws r1
           in if \<not> startswith r2 '':'' then None
              else
                (case scan_once n (skip_ws (drop 1 r2)) of
                   None \<Rightarrow> None
                 | Some (v, r3) \<Rightarrow>
                     (let pairs' = dict_set key v pairs;
                          r4 = skip_ws r3
                      in if startswith r4 ''}'' then Some (JObject pairs', drop 1 r4)
                         else if startswith r4 '','' then
                           (let r5 = skip_ws (drop 1 r4)
                            in if startswith r5 [CHR 0x22] then scan_object n pairs' r5 else None)
                         else None))))"
| "scan_array 0 acc s = None"
| "scan_array (Suc n) acc s =
     (case scan_once n s of
        None \<Rightarrow> None
      | Some (v, r1) \<Rightarrow>
          (let r2 = skip_ws r1
           in if startswith r2 '']'' then Some (JArray (acc @ [v]), drop 1 r2)
              else if startswith r2 '','' then scan_array n (acc @ [v]) (skip_ws (drop 1 r2))
              else None))"

definition json_loads :: "string \<Rightarrow> json option" where
  "json_loads s =
     (case scan_once (Suc (length s + length s)) (skip_ws s) of
        None \<Rightarrow> None
      | Some (v, r) \<Rightarrow> if skip_ws r = [] then Some v else None)"

text \<open>
  The dictionaries \<open>parse_response\<close> returns: \<open>{"type": "tool", "tool": t, "args": a}\<close>,
  \<open>{"type": "answer", "content": c}\<close>, \<open>{"type": "thought", "content": c}\<close> and
  \<open>{"type": "error", "content": c}\<close>.
\<close>

datatype parsed =
    Tool string json
  | Answer string
  | Thought string
  | Error string

section \<open>\<open>AgentWorker.parse_response\<close> of \<open>agent.py\<close>\<close>

fun brace_scan :: "string \<Rightarrow> nat \<Rightarrow> int \<Rightarrow> bool \<Rightarrow> nat" where
  \<comment> \<open>The loop of lines 113 to 124 over \<open>enumerate(args_part)\<close>, from index \<open>idx\<close> with the
      current \<open>brace_count\<close> and \<open>started\<close>; the result is \<open>json_end\<close>.\<close>
  "brace_scan [] idx brace_count started = 0"
| "brace_scan (ch # cs) idx brace_count started =
     (let brace_count' = (if ch = CHR ''{'' then brace_count + 1
                          else if ch = CHR ''}'' then brace_count - 1 else brace_count);
          started' = (if ch = CHR ''{'' then True else started)
      in if started' \<and> brace_count' = 0 then idx + 1
         else brace_scan cs (idx + 1) brace_count' started')"

definition parse_args :: "(string \<Rightarrow> json option) \<Rightarrow> string \<Rightarrow> json" where
  \<comment> \<open>The inner \<open>try\<close> of lines 111 to 138. \<open>loads s = None\<close> stands for \<open>json.loads(s)\<close>
      raising; the bare \<open>except\<close> catches whatever it raises.\<close>
  "parse_args loads args_part =
     (let json_end = brace_scan args_part 0 0 False;
          json_str = (if json_end > 0 then take json_end args_part
                      else split_at_0 [CHR 0x0A] args_part);
          json_str = strip (replace_empty ''```'' (replace_empty ''```json'' json_str))
      in case loads json_str of
           Some args \<Rightarrow> args
         | None \<Rightarrow> JObject [(''raw'', JStr (split_at_0 [CHR 0x0A] args_part))])"

definition tool_call :: "(string \<Rightarrow> json option) \<Rightarrow> string \<Rightarrow> exn + parsed" where
  \<comment> \<open>The body of the outer \<open>try\<close>, lines 105 to 140.\<close>
  "tool_call loads response =
     (case split_at_1 ''TOOL:'' response of
        Inl e \<Rightarrow> Inl e
      | Inr after_tool \<Rightarrow>
          (let tool_line = strip (split_at_0 [CHR 0x0A] after_tool);
               tool_line = (if str_in ''('' tool_line then strip (split_at_0 ''('' tool_line)
                            else tool_line)
           in case (if str_in ''ARGS:'' response
                    then map_sum id strip (split_at_1 ''ARGS:'' response)
                    else Inr ''{}'') of
                Inl e \<Rightarrow> Inl e
              | Inr args_part \<Rightarrow> Inr (Tool tool_line (parse_args loads args_part))))"

definition raw_patterns :: "string list" where
  "raw_patterns = [''docker ps'', ''docker logs'', ''systemctl'', ''kubectl'', ''curl '',
                   ''git status'', ''nmap '', ''ipconfig'']"

definition strip_prefixes :: "string \<Rightarrow> string" where
  \<comment> \<open>Lines 153 to 155: each prefix in turn is cut off when the command starts with it.\<close>
  "strip_prefixes cmd =
     foldl (\<lambda>cmd prefix. if startswith (lower cmd) prefix then drop (length prefix) cmd else cmd)
       cmd [''let me run '', ''running '', ''execute '']"

definition parse_response_with ::
    "(string \<Rightarrow> json option) \<Rightarrow> (char \<Rightarrow> bool) \<Rightarrow> string \<Rightarrow> exn + parsed" where
  \<comment> \<open>Lines 98 to 159. The \<open>print\<close> of line 156 is outside every \<open>try\<close>.\<close>
  "parse_response_with loads encodable response0 =
     (let response = strip response0
      in if str_in ''TOOL:'' response then
           (case tool_call loads response of
              Inr p \<Rightarrow> Inr p
            | Inl e \<Rightarrow> Inr (Error (''Failed to parse tool call: '' @ str_of_exn e)))
         else if str_in ''ANSWER:'' response then
           map_sum id (\<lambda>a. Answer (strip a)) (split_at_1 ''ANSWER:'' response)
         else if list_ex (\<lambda>p. str_in (lower p) (lower response)) raw_patterns then
           (let cmd = strip_prefixes (strip (split_at_0 [CHR 0x0A] response))
            in case py_print encodable (''[FALLBACK] Routing raw command: '' @ take 50 cmd) of
                 Inl e \<Rightarrow> Inl e
               | Inr u \<Rightarrow> Inr (Tool ''run_command'' (JObject [(''command'', JStr cmd)])))
         else Inr (Thought response))"

definition parse_response :: "string \<Rightarrow> exn + parsed" where
  \<comment> \<open>\<open>parse_response\<close> in a process whose \<open>sys.stdout\<close> is UTF-8.\<close>
  "parse_response = parse_response_with json_loads utf8_encodable"

text \<open>
  What section 4.1 of the specification calls the first balanced span, in its own words
  and without the loop of the code: the span opens with a brace, its opening and closing
  braces are equal in number, and they are equal in number in no shorter prefix of it.
\<close>

definition brace_depth :: "string \<Rightarrow> int" where
  "brace_depth s =
     int (length (filter (\<lambda>c. c = CHR ''{'') s)) - int (length (filter (\<lambda>c. c = CHR ''}'') s))"

definition first_balanced_span :: "string \<Rightarrow> bool" where
  "first_balanced_span span =
     (startswith span ''{'' \<and> brace_depth span = 0 \<and>
      list_all (\<lambda>k. brace_depth (take k span) \<noteq> 0) [1..<length span])"

section \<open>\<open>AgentWorker.parse_response\<close> of \<open>agent_fixed.py\<close>\<close>

definition parse_response_fixed ::
    "(string \<Rightarrow> json option) \<Rightarrow> (string \<Rightarrow> parsed) \<Rightarrow> string \<Rightarrow> exn + parsed" where
  \<comment> \<open>Lines 94 to 114. The answer marker is looked for first. \<open>fallback\<close> stands for lines
      116 to 141, the table of regular expressions for raw shell commands and the final
      thought, which are reached only by a text with neither marker.\<close>
  "parse_response_fixed loads fallback response0 =
     (let response = strip response0
      in if str_in ''ANSWER:'' response then
           map_sum id (\<lambda>a. Answer (strip a)) (split_at_1 ''ANSWER:'' response)
         else if str_in ''TOOL:'' response then
           (case (case split_at_1 ''TOOL:'' response of
                    Inl e \<Rightarrow> Inl e
                  | Inr after_tool \<Rightarrow>
                      (let tool_line = strip (split_at_0 [CHR 0x0A] after_tool)
                       in case (if str_in ''ARGS:'' response
                                then map_sum id strip (split_at_1 ''ARGS:'' response)
                                else Inr ''{}'') of
                            Inl e \<Rightarrow> Inl e
                          | Inr args_part \<Rightarrow>
                              Inr (Tool tool_line
                                     (case loads (split_at_0 [CHR 0x0A] args_part) of
                                        Some args \<Rightarrow> args
                                      | None \<Rightarrow> JObject [])))) of
              Inr p \<Rightarrow> Inr p
            | Inl e \<Rightarrow> Inr (Error (''Failed to parse tool call: '' @ str_of_exn e)))
         else Inr (fallback response))"

section \<open>\<open>AgentWorker.run\<close> of \<open>agent.py\<close>\<close>

record history_item =
  iteration :: int
  response :: string
  parsed :: parsed

record message =
  role :: string
  content :: string

text \<open>
  The fields of an \<open>AgentWorker\<close> that \<open>run\<close> reads or writes. The URLs, the token and
  the MCP client are set once in \<open>__init__\<close> and only used by the calls that leave the
  process.
\<close>

record agent_worker =
  agent_id :: string
  model :: string
  tool_descriptions :: string
  history :: "history_item list"
  max_iterations :: int

definition tool_descriptions_text :: string where
  \<open>tool_descriptions_text =
     ''\<newline>'' @
     ''Available Tools:\<newline>'' @
     ''1. list_files(path) - List files in a directory\<newline>'' @
     ''2. read_file(path) - Read contents of a file\<newline>'' @
     ''3. write_file(path, content) - Write content to a file\<newline>'' @
     ''4. git_status(repo) - Get git status of a repository\<newline>'' @
     ''5. git_log(repo) - Get recent git commits\<newline>'' @
     ''6. get_pods(namespace) - List Kubernetes pods (default: "default")\<newline>'' @
     ''7. kubectl_logs(pod, namespace, tail) - Get logs from a Kubernetes pod (default namespace: "default", default tail: 100)\<newline>'' @
     ''8. docker_ps() - List running Docker containers\<newline>'' @
     ''9. docker_logs(container, tail) - Get logs from a container (default tail: 100)\<newline>'' @
     ''10. run_command(command) - Run any shell command\<newline>'' @
     ''11. fetch_url(url) - Fetch content from a URL\<newline>'' @
     ''12. web_search(query) - Search the web for information\<newline>'' @
     ''\<newline>'' @
     ''FORMAT INSTRUCTIONS:\<newline>'' @
     ''To call a tool, you MUST use this exact format. Do not add any other text or markdown code blocks around it.\<newline>'' @
     ''TOOL: tool_name\<newline>'' @
     ''ARGS: {"arg_name": "value", "another_arg": "another_value"}\<newline>'' @
     ''\<newline>'' @
     ''The ARGS MUST be a valid JSON dictionary.\<newline>'' @
     ''\<newline>'' @
     ''Example 1: Listing files\<newline>'' @
     ''TOOL: list_files\<newline>'' @
     ''ARGS: {"path": "/app"}\<newline>'' @
     ''\<newline>'' @
     ''Example 2: Running a shell command\<newline>'' @
     ''TOOL: run_command\<newline>'' @
     ''ARGS: {"command": "ls -la /tmp"}\<newline>'' @
     ''\<newline>'' @
     ''Example 3: Searching the web\<newline>'' @
     ''TOOL: web_search\<newline>'' @
     ''ARGS: {"query": "latest kubernetes version"}\<newline>'' @
     ''\<newline>'' @
     ''When you have the final answer, respond with:\<newline>'' @
     ''ANSWER: <your answer>\<newline>'' @
     ''''\<close>

definition AgentWorker :: "string \<Rightarrow> string \<Rightarrow> agent_worker" where
  \<comment> \<open>\<open>__init__\<close>\<close>
  "AgentWorker aid m =
     \<lparr>agent_id = aid, model = m, tool_descriptions = tool_descriptions_text,
      history = [], max_iterations = 10\<rparr>"

text \<open>
  The three dictionaries that carry a result: the two \<open>run\<close> builds
  (\<open>"status": "complete"\<close> with agent id, answer and iterations, and
  \<open>"status": "max_iterations"\<close> with agent id, partial history and iterations) and the
  one \<open>execute_parallel\<close> builds for a failed worker (\<open>"status": "error"\<close> with answer
  and iterations).
\<close>

datatype agent_result =
    Complete string string int
  | MaxIterations string "history_item list" int
  | AgentError string int

fun status :: "agent_result \<Rightarrow> string" where
  "status (Complete aid ans n) = ''complete''"
| "status (MaxIterations aid ph n) = ''max_iterations''"
| "status (AgentError ans n) = ''error''"

fun answer :: "agent_result \<Rightarrow> string option" where
  \<comment> \<open>\<open>r.get('answer')\<close>\<close>
  "answer (Complete aid ans n) = Some ans"
| "answer (MaxIterations aid ph n) = None"
| "answer (AgentError ans n) = Some ans"

fun iterations :: "agent_result \<Rightarrow> int" where
  "iterations (Complete aid ans n) = n"
| "iterations (MaxIterations aid ph n) = n"
| "iterations (AgentError ans n) = n"

definition force_tool_use :: "string \<Rightarrow> string \<Rightarrow> string" where
  \<comment> \<open>Lines 223 to 231: the response that replaces the model's on the first turn.\<close>
  \<open>force_tool_use task resp =
     (let task_lower = lower task
      in if str_in ''docker'' task_lower \<and>
            (str_in ''list'' task_lower \<or> str_in ''container'' task_lower)
         then ''TOOL: docker_ps\<newline>ARGS: {}''
         else if str_in ''kubernetes'' task_lower \<or> str_in ''pod'' task_lower
         then ''TOOL: get_pods\<newline>ARGS: {}''
         else if str_in ''file'' task_lower \<and> str_in ''list'' task_lower
         then ''TOOL: list_files\<newline>ARGS: {"path": "."}''
         else if str_in ''status'' task_lower \<or> str_in ''check'' task_lower
         then ''TOOL: get_pods\<newline>ARGS: {}''
         else resp)\<close>

definition last_three :: "'a list \<Rightarrow> 'a list" where
  \<comment> \<open>\<open>xs[-3:]\<close>\<close>
  "last_three xs = drop (length xs - 3) xs"

text \<open>
  The loop of lines 216 to 258. \<open>query_llm\<close> and \<open>execute_tool\<close> leave the process (an
  HTTP request, the MCP client) and both return a string on every path, so they are
  parameters: \<open>llm\<close> maps the messages sent to the response received, \<open>tool\<close> maps a tool
  name and its arguments to the tool's result. The first argument counts the iterations
  that remain, \<open>i\<close> is the loop variable. The result is \<open>None\<close> when the loop runs to
  its end, and the history is the one \<open>self.history\<close> holds then. \<open>log_to_dashboard\<close>
  catches its own exceptions and changes nothing that \<open>run\<close> returns. The output is
  UTF-8, as for \<open>parse_response\<close>, so the prints of \<open>run\<close> write every text they are
  given and change nothing either.
\<close>

fun run_loop ::
    "(message list \<Rightarrow> string) \<Rightarrow> (string \<Rightarrow> json \<Rightarrow> string) \<Rightarrow> string \<Rightarrow> string \<Rightarrow>
     nat \<Rightarrow> int \<Rightarrow> message list \<Rightarrow> history_item list \<Rightarrow>
     (exn + agent_result) option \<times> history_item list" where
  "run_loop llm tool aid task 0 i messages hist = (None, hist)"
| "run_loop llm tool aid task (Suc k) i messages hist =
     (let resp = llm messages;
          resp = (if i = 0 \<and> \<not> str_in ''TOOL:'' resp then force_tool_use task resp else resp)
      in case parse_response resp of
           Inl e \<Rightarrow> (Some (Inl e), hist)
         | Inr p \<Rightarrow>
             (let hist' = hist @ [\<lparr>iteration = i + 1, response = resp, parsed = p\<rparr>]
              in case p of
                   Answer c \<Rightarrow> (Some (Inr (Complete aid c (i + 1))), hist')
                 | Tool t args \<Rightarrow>
                     run_loop llm tool aid task k (i + 1)
                       (messages @
                        [\<lparr>role = ''assistant'', content = resp\<rparr>,
                         \<lparr>role = ''user'',
                          content = ''Tool result:\<newline>'' @ tool t args @
                                    ''\<newline>\<newline>Continue reasoning or provide ANSWER.''\<rparr>])
                       hist'
                 | _ \<Rightarrow>
                     run_loop llm tool aid task k (i + 1)
                       (messages @
                        [\<lparr>role = ''assistant'', content = resp\<rparr>,
                         \<lparr>role = ''user'', content = ''Continue. Use a TOOL or provide ANSWER.''\<rparr>])
                       hist'))"

definition initial_messages :: "agent_worker \<Rightarrow> string \<Rightarrow> message list" where
  "initial_messages a task =
     [\<lparr>role = ''system'',
       content = ''You are an autonomous agent with access to tools. '' @ tool_descriptions a @
         ''\<newline>\<newline>IMPORTANT: Use web_search for current events or anything after your knowledge cutoff. After getting useful tool results, provide ANSWER immediately - do not make unnecessary extra searches. Be concise.''\<rparr>,
      \<lparr>role = ''user'', content = task\<rparr>]"

definition run ::
    "(message list \<Rightarrow> string) \<Rightarrow> (string \<Rightarrow> json \<Rightarrow> string) \<Rightarrow> agent_worker \<Rightarrow> string \<Rightarrow>
     (exn + agent_result) \<times> agent_worker" where
  \<comment> \<open>The value returned (or the exception raised) and the agent as \<open>run\<close> leaves it.\<close>
  "run llm tool a task =
     (case run_loop llm tool (agent_id a) task (nat (max_iterations a)) 0
             (initial_messages a task) (history a) of
        (Some r, hist) \<Rightarrow> (r, a\<lparr>history := hist\<rparr>)
      | (None, hist) \<Rightarrow>
          (Inr (MaxIterations (agent_id a) (last_three hist) (max_iterations a)),
           a\<lparr>history := hist\<rparr>))"

text \<open>
  Stubs for the two collaborators, as the tests of the loop use them: a model that gives
  the same text to every query and a tool executor that gives the same output to every
  call.
\<close>

definition constant_llm :: "string \<Rightarrow> message list \<Rightarrow> string" where
  "constant_llm r msgs = r"

definition constant_tool :: "string \<Rightarrow> string \<Rightarrow> json \<Rightarrow> string" where
  "constant_tool out t args = out"

section \<open>\<open>MultiAgentOrchestrator.execute_parallel\<close> of \<open>orchestrator.py\<close>\<close>

text \<open>
  The futures are named by the index they were submitted with, so \<open>future_to_task\<close> is
  \<open>enumerate 0 subtasks\<close>. \<open>run_agent i task\<close> is what \<open>future.result()\<close> gives for the
  call \<open>_run_agent(i, task)\<close>: \<open>Inr\<close> the dictionary returned, \<open>Inl\<close> the text of the
  exception raised. \<open>as_completed\<close> gives the futures in the order they finish, which
  the thread pool decides.
\<close>

definition error_result :: "string \<Rightarrow> agent_result" where
  "error_result e = AgentError (''Agent error: '' @ e) 0"

definition collect :: "(nat \<Rightarrow> string \<Rightarrow> string + agent_result) \<Rightarrow> nat \<times> string \<Rightarrow> nat \<times> agent_result" where
  \<comment> \<open>The body of the loop of lines 117 to 127: the pair appended to \<open>results\<close>.\<close>
  "collect run_agent future =
     (case future of (idx, task) \<Rightarrow>
        (case run_agent idx task of
           Inr res \<Rightarrow> (idx, res)
         | Inl e \<Rightarrow> (idx, error_result e)))"

definition execute_parallel ::
    "(nat \<Rightarrow> string \<Rightarrow> string + agent_result) \<Rightarrow>
     ((nat \<times> string) list \<Rightarrow> (nat \<times> string) list) \<Rightarrow> string list \<Rightarrow> agent_result list" where
  "execute_parallel run_agent as_completed subtasks =
     (let future_to_task = enumerate 0 subtasks;
          results = map (collect run_agent) (as_completed future_to_task);
          results = sort_key fst results
      in map snd results)"

section \<open>The JSON decoder never runs out of fuel\<close>

lemma length_skip_ws: "length (skip_ws s) \<le> length s"
  by (simp add: skip_ws_def length_dropWhile_le)

lemma scanstring_shorter: "scanstring s = Some (k, r) \<Longrightarrow> length r < length s"
proof (induction s arbitrary: k r rule: scanstring.induct)
  case 1
  then show ?case by simp
next
  case (2 c cs)
  then show ?case
    by (fastforce split: if_splits list.splits option.splits)
qed

lemma dropWhile_le: "length xs \<le> n \<Longrightarrow> length (dropWhile P xs) \<le> n"
  using length_dropWhile_le [of P xs] by simp

lemma int_part_le: "int_part s = Some (l, r) \<Longrightarrow> length r < length s"
proof -
  assume a: "int_part s = Some (l, r)"
  define sign where "sign = (if startswith s ''-'' then ''-'' else [])"
  obtain d ds where d: "drop (length sign) s = d # ds"
    using a unfolding int_part_def Let_def sign_def by (auto split: list.splits)
  have "length (d # ds) \<le> length s" using d by (metis length_drop diff_le_self)
  then have 1: "length ds < length s" by simp
  have "r = ds \<or> r = dropWhile is_digit ds"
    using a d unfolding int_part_def Let_def sign_def by (auto split: if_splits)
  then show ?thesis using 1 length_dropWhile_le [of is_digit ds] by auto
qed

lemma frac_part_le: "frac_part s = (l, r) \<Longrightarrow> length r \<le> length s"
  by (auto simp: frac_part_def split: list.splits if_splits intro: dropWhile_le)

lemma drop_Cons_length: "drop k xs = y # ys \<Longrightarrow> length ys < length xs"
  by (drule arg_cong [where f = length]) simp

lemma exp_part_le: "exp_part s = (l, r) \<Longrightarrow> length r \<le> length s"
  unfolding exp_part_def Let_def
  by (auto split: list.splits if_splits dest!: drop_Cons_length intro!: dropWhile_le)

lemma match_number_shorter: "match_number s = Some (v, r) \<Longrightarrow> length r < length s"
proof -
  assume a: "match_number s = Some (v, r)"
  then obtain i r1 f r2 e where
    "int_part s = Some (i, r1)" "frac_part r1 = (f, r2)" "exp_part r2 = (e, r)"
    unfolding match_number_def by (auto split: option.splits prod.splits if_splits)
  then show ?thesis
    using int_part_le frac_part_le exp_part_le by (meson le_trans less_le_trans not_le)
qed

lemma scan_le:
  "scan_once n s = Some (v, r) \<Longrightarrow> length r \<le> length s"
  "scan_object n pairs s = Some (v, r) \<Longrightarrow> length r \<le> length s"
  "scan_array n acc s = Some (v, r) \<Longrightarrow> length r \<le> length s"
proof (induction n arbitrary: s pairs acc v r)
  case 0
  { case 1 then show ?case by simp }
  { case 2 then show ?case by simp }
  { case 3 then show ?case by simp }
next
  case (Suc n)
  {
    case 1
    show ?case
    proof (cases s)
      case Nil
      then show ?thesis using 1 by simp
    next
      case (Cons c cs)
      have sk: "length (skip_ws cs) \<le> length cs" by (rule length_skip_ws)
      consider
        (str) k where "scanstring cs = Some (k, r)"
        | (emp) "r = drop 1 (skip_ws cs)"
        | (obj) "scan_object n [] (skip_ws cs) = Some (v, r)"
        | (arr) "scan_array n [] (skip_ws cs) = Some (v, r)"
        | (lit) "length r \<le> length cs"
        | (num) "match_number (c # cs) = Some (v, r)"
        using 1 Cons by (auto simp: Let_def split: if_splits option.splits)
      then show ?thesis
      proof cases
        case str
        then show ?thesis using scanstring_shorter Cons by fastforce
      next
        case emp
        then show ?thesis using sk Cons by simp
      next
        case obj
        then show ?thesis using Suc.IH(2) sk Cons by fastforce
      next
        case arr
        then show ?thesis using Suc.IH(3) sk Cons by fastforce
      next
        case lit
        then show ?thesis using Cons by simp
      next
        case num
        then show ?thesis using match_number_shorter Cons by fastforce
      qed
    qed
  }
  {
    case 2
    from 2 obtain key r1 where k: "scanstring (drop 1 s) = Some (key, r1)"
      by (auto split: option.splits)
    have l1: "length r1 < length s" using scanstring_shorter [OF k] by simp
    let ?r2 = "skip_ws r1"
    from 2 k obtain v3 r3 where v: "scan_once n (skip_ws (drop 1 ?r2)) = Some (v3, r3)"
      by (auto simp: Let_def split: option.splits if_splits)
    have l3: "length r3 \<le> length r1"
      using Suc.IH(1) [OF v] length_skip_ws [of "drop 1 (skip_ws r1)"] length_skip_ws [of r1]
      by simp
    let ?r4 = "skip_ws r3"
    have l4: "length ?r4 \<le> length r1" using l3 length_skip_ws [of r3] by simp
    consider (close) "r = drop 1 ?r4"
      | (more) "scan_object n (dict_set key v3 pairs) (skip_ws (drop 1 ?r4)) = Some (v, r)"
      using 2 k v by (auto simp: Let_def split: option.splits if_splits)
    then show ?case
    proof cases
      case close
      then show ?thesis using l4 l1 by simp
    next
      case more
      have "length r \<le> length (skip_ws (drop 1 ?r4))" using Suc.IH(2) [OF more] .
      also have "\<dots> \<le> length ?r4" using length_skip_ws [of "drop 1 ?r4"] by simp
      finally show ?thesis using l4 l1 by simp
    qed
  }
  {
    case 3
    from 3 obtain v1 r1 where v: "scan_once n s = Some (v1, r1)"
      by (auto split: option.splits)
    have l1: "length r1 \<le> length s" using Suc.IH(1) [OF v] .
    let ?r2 = "skip_ws r1"
    have l2: "length ?r2 \<le> length s" using l1 length_skip_ws [of r1] by simp
    consider (close) "r = drop 1 ?r2"
      | (more) "scan_array n (acc @ [v1]) (skip_ws (drop 1 ?r2)) = Some (v, r)"
      using 3 v by (auto simp: Let_def split: option.splits if_splits)
    then show ?case
    proof cases
      case close
      then show ?thesis using l2 by simp
    next
      case more
      have "length r \<le> length (skip_ws (drop 1 ?r2))" using Suc.IH(3) [OF more] .
      also have "\<dots> \<le> length ?r2" using length_skip_ws [of "drop 1 ?r2"] by simp
      finally show ?thesis using l2 by simp
    qed
  }
qed

lemma startswith_drop_shorter: "startswith s (p # ps) \<Longrightarrow> length (drop 1 s) < length s"
  by (cases s) auto

lemma skip_ws_drop_shorter:
  "startswith (skip_ws s) (p # ps) \<Longrightarrow> length (skip_ws (drop 1 (skip_ws s))) < length s"
  using startswith_drop_shorter [of "skip_ws s" p ps] length_skip_ws [of s]
    length_skip_ws [of "drop 1 (skip_ws s)"]
  by simp

lemma scan_fuel_step:
  "2 * length s + 1 \<le> n \<Longrightarrow> scan_once (Suc n) s = scan_once n s"
  "2 * length s + 1 \<le> n \<Longrightarrow> scan_object (Suc n) pairs s = scan_object n pairs s"
  "2 * length s + 2 \<le> n \<Longrightarrow> scan_array (Suc n) acc s = scan_array n acc s"
proof (induction n arbitrary: s pairs acc)
  case 0
  { case 1 then show ?case by simp }
  { case 2 then show ?case by simp }
  { case 3 then show ?case by simp }
next
  case (Suc n)
  {
    case 1
    show ?case
    proof (cases s)
      case Nil
      then show ?thesis by simp
    next
      case (Cons c cs)
      have "length (skip_ws cs) \<le> length cs" by (rule length_skip_ws)
      then have b: "2 * length (skip_ws cs) + 2 \<le> n" using 1 Cons by simp
      have o: "scan_object (Suc n) [] (skip_ws cs) = scan_object n [] (skip_ws cs)"
        using b by (intro Suc.IH(2)) simp
      have a: "scan_array (Suc n) [] (skip_ws cs) = scan_array n [] (skip_ws cs)"
        using b by (intro Suc.IH(3))
      show ?thesis unfolding Cons scan_once.simps Let_def o a ..
    qed
  }
  {
    case 2
    show ?case
    proof (cases "scanstring (drop 1 s)")
      case None
      then show ?thesis by simp
    next
      case (Some kr)
      obtain key r1 where kr: "kr = (key, r1)" by (cases kr)
      have l1: "length r1 < length s" using scanstring_shorter [of "drop 1 s" key r1] Some kr by simp
      show ?thesis
      proof (cases "startswith (skip_ws r1) '':''")
        case False
        then show ?thesis using Some kr by (simp add: Let_def)
      next
        case True
        let ?arg = "skip_ws (drop 1 (skip_ws r1))"
        have l2: "length ?arg < length r1" using True by (rule skip_ws_drop_shorter)
        have v: "scan_once (Suc n) ?arg = scan_once n ?arg"
          using l1 l2 2 by (intro Suc.IH(1)) simp
        show ?thesis
        proof (cases "scan_once n ?arg")
          case None
          then show ?thesis using Some kr True v by (simp add: Let_def)
        next
          case vr: (Some vr3)
          obtain v3 r3 where vr3: "vr3 = (v3, r3)" by (cases vr3)
          have l3: "length r3 \<le> length ?arg" using scan_le(1) [of n ?arg v3 r3] vr vr3 by simp
          show ?thesis
          proof (cases "startswith (skip_ws r3) '',''")
            case False
            then show ?thesis using Some kr True v vr vr3 by (simp add: Let_def)
          next
            case comma: True
            let ?r5 = "skip_ws (drop 1 (skip_ws r3))"
            have "length ?r5 < length r3" using comma by (rule skip_ws_drop_shorter)
            then have "scan_object (Suc n) (dict_set key v3 pairs) ?r5 =
                scan_object n (dict_set key v3 pairs) ?r5"
              using l1 l2 l3 2 by (intro Suc.IH(2)) simp
            then show ?thesis using Some kr True v vr vr3 comma by (simp add: Let_def)
          qed
        qed
      qed
    qed
  }
  {
    case 3
    have v: "scan_once (Suc n) s = scan_once n s" using 3 by (intro Suc.IH(1)) simp
    show ?case
    proof (cases "scan_once n s")
      case None
      then show ?thesis using v by simp
    next
      case (Some vr)
      obtain v1 r1 where vr: "vr = (v1, r1)" by (cases vr)
      have l1: "length r1 \<le> length s" using scan_le(1) [of n s v1 r1] Some vr by simp
      show ?thesis
      proof (cases "startswith (skip_ws r1) '',''")
        case False
        then show ?thesis using Some vr v by (simp add: Let_def)
      next
        case True
        let ?s' = "skip_ws (drop 1 (skip_ws r1))"
        have "length ?s' < length r1" using True by (rule skip_ws_drop_shorter)
        then have "scan_array (Suc n) (acc @ [v1]) ?s' = scan_array n (acc @ [v1]) ?s'"
          using l1 3 by (intro Suc.IH(3)) simp
        then show ?thesis using Some vr v True by (simp add: Let_def)
      qed
    qed
  }
qed

lemma scan_once_fuel:
  "Suc (length s + length s) \<le> n \<Longrightarrow> scan_once n s = scan_once (Suc (length s + length s)) s"
proof (induction n)
  case 0
  then show ?case by simp
next
  case (Suc n)
  show ?case
  proof (cases "Suc (length s + length s) \<le> n")
    case True
    then have "scan_once (Suc n) s = scan_once n s" by (intro scan_fuel_step(1)) simp
    then show ?thesis using Suc.IH True by simp
  next
    case False
    then have "Suc n = Suc (length s + length s)" using Suc.prems by simp
    then show ?thesis by simp
  qed
qed

lemma json_loads_fuel:
  assumes "Suc (length s + length s) \<le> n"
  shows "(case scan_once n (skip_ws s) of
            None \<Rightarrow> None
          | Some (v, r) \<Rightarrow> if skip_ws r = [] then Some v else None) = json_loads s"
proof -
  let ?t = "skip_ws s"
  have t: "length ?t \<le> length s" by (rule length_skip_ws)
  have "scan_once n ?t = scan_once (Suc (length ?t + length ?t)) ?t"
    using assms t by (intro scan_once_fuel) simp
  moreover have "scan_once (Suc (length s + length s)) ?t = scan_once (Suc (length ?t + length ?t)) ?t"
    using t by (intro scan_once_fuel) simp
  ultimately show ?thesis by (simp add: json_loads_def)
qed

section \<open>Properties of the string operations\<close>

lemma split_1_found: "str_in sep s \<Longrightarrow> sep \<noteq> [] \<Longrightarrow> snd (split_1 sep s) \<noteq> None"
  by (induction s) (auto split: prod.splits)

lemma split_at_1_found: "str_in sep s \<Longrightarrow> sep \<noteq> [] \<Longrightarrow> \<exists>a. split_at_1 sep s = Inr a"
  using split_1_found [of sep s] by (auto simp: split_at_1_def split: option.splits)

lemma startswith_iff: "startswith s p \<longleftrightarrow> (\<exists>b. s = p @ b)"
  by (induction s p rule: startswith.induct) auto

lemma str_in_iff: "str_in sub s \<longleftrightarrow> (\<exists>a b. s = a @ sub @ b)"
proof (induction s)
  case Nil
  then show ?case by auto
next
  case (Cons c cs)
  show ?case
  proof
    assume "str_in sub (c # cs)"
    then consider "startswith (c # cs) sub" | "str_in sub cs" by auto
    then show "\<exists>a b. c # cs = a @ sub @ b"
    proof cases
      case 1
      then obtain b where "c # cs = sub @ b" by (auto simp: startswith_iff)
      then have "c # cs = [] @ sub @ b" by simp
      then show ?thesis by blast
    next
      case 2
      then obtain a b where "cs = a @ sub @ b" using Cons.IH by auto
      then have "c # cs = (c # a) @ sub @ b" by simp
      then show ?thesis by blast
    qed
  next
    assume "\<exists>a b. c # cs = a @ sub @ b"
    then obtain a b where ab: "c # cs = a @ sub @ b" by auto
    show "str_in sub (c # cs)"
    proof (cases a)
      case Nil
      with ab have "startswith (c # cs) sub" by (auto simp: startswith_iff)
      then show ?thesis by simp
    next
      case (Cons x a')
      with ab have "cs = a' @ sub @ b" by simp
      then have "str_in sub cs" using Cons.IH by blast
      then show ?thesis by simp
    qed
  qed
qed

text \<open>
  \<open>split_1\<close> cuts at the first occurrence of the separator: the text is the part
  before, the separator and the part after, and the separator does not occur earlier.
\<close>

lemma split_1_Some: "split_1 sep s = (a, Some b) \<Longrightarrow> s = a @ sep @ b"
proof (induction s arbitrary: a)
  case Nil
  then show ?case by simp
next
  case (Cons c cs)
  show ?case
  proof (cases "startswith (c # cs) sep")
    case True
    then obtain t where t: "c # cs = sep @ t" by (auto simp: startswith_iff)
    have "a = []" "b = drop (length sep) (c # cs)" using Cons.prems True by auto
    then show ?thesis using t by simp
  next
    case False
    then obtain a' where "split_1 sep cs = (a', Some b)" "a = c # a'"
      using Cons.prems by (auto split: prod.splits)
    then show ?thesis using Cons.IH by simp
  qed
qed

lemma split_1_None: "sep \<noteq> [] \<Longrightarrow> split_1 sep s = (a, None) \<Longrightarrow> a = s \<and> \<not> str_in sep s"
  by (induction s arbitrary: a) (auto split: prod.splits if_splits)

lemma split_1_first:
  "sep \<noteq> [] \<Longrightarrow> split_1 sep s = (a, Some b) \<Longrightarrow> \<not> str_in sep (a @ butlast sep)"
proof (induction s arbitrary: a)
  case Nil
  then show ?case by simp
next
  case (Cons c cs)
  show ?case
  proof (cases "startswith (c # cs) sep")
    case True
    then have "a = []" using Cons.prems by simp
    moreover have "\<not> str_in sep (butlast sep)"
    proof
      assume "str_in sep (butlast sep)"
      then obtain x y where "butlast sep = x @ sep @ y" by (auto simp: str_in_iff)
      then have "length (butlast sep) = length x + length sep + length y"
        by (metis length_append add.assoc)
      moreover have "length (butlast sep) < length sep" using Cons.prems(1) by simp
      ultimately show False by linarith
    qed
    ultimately show ?thesis by simp
  next
    case False
    then obtain a' where a': "split_1 sep cs = (a', Some b)" "a = c # a'"
      using Cons.prems by (auto split: prod.splits)
    have ih: "\<not> str_in sep (a' @ butlast sep)" using Cons.IH [OF Cons.prems(1) a'(1)] .
    have cs: "cs = a' @ sep @ b" using split_1_Some [OF a'(1)] .
    have "\<not> startswith (c # a' @ butlast sep) sep"
    proof
      assume "startswith (c # a' @ butlast sep) sep"
      then obtain t where t: "c # a' @ butlast sep = sep @ t" by (auto simp: startswith_iff)
      have "c # cs = (c # a' @ butlast sep) @ [last sep] @ b"
        using cs Cons.prems(1) by simp
      then have "c # cs = sep @ (t @ [last sep] @ b)" using t by simp
      then show False using False by (auto simp: startswith_iff)
    qed
    then show ?thesis using ih a'(2) by simp
  qed
qed

lemma str_in_dropWhile:
  assumes "str_in sub s" "sub \<noteq> []" "\<not> P (hd sub)"
  shows "str_in sub (dropWhile P s)"
proof -
  from assms obtain a b where s: "s = a @ sub @ b" by (auto simp: str_in_iff)
  from assms obtain x xs where sub: "sub = x # xs" "\<not> P x" by (cases sub) auto
  show ?thesis
  proof (cases "\<forall>y\<in>set a. P y")
    case True
    then have "dropWhile P s = sub @ b" using s sub by (simp add: dropWhile_append)
    then have "dropWhile P s = [] @ sub @ b" by simp
    then show ?thesis unfolding str_in_iff by blast
  next
    case False
    then have "dropWhile P s = dropWhile P a @ sub @ b" using s by (metis dropWhile_append)
    then show ?thesis unfolding str_in_iff by blast
  qed
qed

lemma str_in_rev: "str_in sub s \<Longrightarrow> str_in (rev sub) (rev s)"
proof -
  assume "str_in sub s"
  then obtain a b where "s = a @ sub @ b" by (auto simp: str_in_iff)
  then have "rev s = rev b @ rev sub @ rev a" by simp
  then show ?thesis unfolding str_in_iff by blast
qed

lemma str_in_strip:
  assumes "str_in sub s" "sub \<noteq> []" "\<not> isspace (hd sub)" "\<not> isspace (last sub)"
  shows "str_in sub (strip s)"
proof -
  have 1: "str_in sub (dropWhile isspace s)" using assms by (intro str_in_dropWhile)
  have 2: "str_in (rev sub) (rev (dropWhile isspace s))" using 1 by (rule str_in_rev)
  have "str_in (rev sub) (dropWhile isspace (rev (dropWhile isspace s)))"
    using 2 assms by (intro str_in_dropWhile) (auto simp: hd_rev)
  then have "str_in (rev (rev sub)) (rev (dropWhile isspace (rev (dropWhile isspace s))))"
    by (rule str_in_rev)
  then show ?thesis by (simp add: strip_def)
qed

lemma strip_sub: "\<exists>a b. s = a @ strip s @ b"
proof -
  let ?d = "dropWhile isspace s"
  have "s = takeWhile isspace s @ ?d" by simp
  moreover have "?d = strip s @ rev (takeWhile isspace (rev ?d))"
    unfolding strip_def by (metis rev_append rev_rev_ident takeWhile_dropWhile_id)
  ultimately have "s = takeWhile isspace s @ strip s @ rev (takeWhile isspace (rev ?d))" by simp
  then show ?thesis by blast
qed

lemma str_in_strip_D: "str_in sub (strip s) \<Longrightarrow> str_in sub s"
proof -
  assume "str_in sub (strip s)"
  then obtain a b where 1: "strip s = a @ sub @ b" by (auto simp: str_in_iff)
  obtain c d where "s = c @ strip s @ d" using strip_sub by blast
  then have "s = (c @ a) @ sub @ (b @ d)" using 1 by simp
  then show ?thesis unfolding str_in_iff by blast
qed

lemma tool_marker_strip: "str_in ''TOOL:'' (strip s) = str_in ''TOOL:'' s"
  using str_in_strip [of "''TOOL:''" s] str_in_strip_D [of "''TOOL:''" s]
  by (auto simp: isspace_def)

lemma answer_marker_strip: "str_in ''ANSWER:'' (strip s) = str_in ''ANSWER:'' s"
  using str_in_strip [of "''ANSWER:''" s] str_in_strip_D [of "''ANSWER:''" s]
  by (auto simp: isspace_def)

lemma args_marker_strip: "str_in ''ARGS:'' (strip s) = str_in ''ARGS:'' s"
  using str_in_strip [of "''ARGS:''" s] str_in_strip_D [of "''ARGS:''" s]
  by (auto simp: isspace_def)

lemma tool_call_total:
  assumes "str_in ''TOOL:'' resp"
  shows "\<exists>t a. tool_call loads resp = Inr (Tool t a)"
proof -
  obtain after_tool where 1: "split_at_1 ''TOOL:'' resp = Inr after_tool"
    using split_at_1_found [OF assms] by auto
  show ?thesis
  proof (cases "str_in ''ARGS:'' resp")
    case True
    then obtain after_args where "split_at_1 ''ARGS:'' resp = Inr after_args"
      using split_at_1_found [of "''ARGS:''" resp] by auto
    then show ?thesis using 1 True by (simp add: tool_call_def Let_def)
  next
    case False
    then show ?thesis using 1 by (simp add: tool_call_def Let_def)
  qed
qed

lemma split_1_found_conv: "snd (split_1 sep s) \<noteq> None \<Longrightarrow> str_in sep s"
  by (induction s) (auto split: prod.splits if_splits)

lemma split_at_1_Inr_D: "split_at_1 sep s = Inr a \<Longrightarrow> str_in sep s"
  using split_1_found_conv [of sep s] by (auto simp: split_at_1_def split: option.splits)

lemma json_loads_empty_object: "json_loads ''{}'' = Some (JObject [])"
  by (simp add: json_loads_def skip_ws_def json_ws_def)

lemma parse_args_empty: "parse_args json_loads ''{}'' = JObject []"
  by (simp add: parse_args_def json_loads_empty_object strip_def isspace_def)

lemma parse_args_not_valid:
  "parse_args json_loads ''{not valid json'' = JObject [(''raw'', JStr ''{not valid json'')]"
  by (simp add: parse_args_def json_loads_def skip_ws_def json_ws_def strip_def isspace_def
      split_at_0_def)

lemma parse_args_nested:
  \<open>parse_args json_loads ''{"a": {"b": 1}}\<newline>extra text'' =
     JObject [(''a'', JObject [(''b'', JInt 1)])]\<close>
  by (simp add: parse_args_def json_loads_def skip_ws_def json_ws_def strip_def isspace_def
      split_at_0_def match_number_def int_part_def frac_part_def exp_part_def is_digit_def
      int_of_lexeme_def int_of_digits_def)

lemma parse_with_args:
  assumes "str_in ''TOOL:'' resp"
    and "split_at_1 ''ARGS:'' (strip resp) = Inr block"
  shows "\<exists>t. parse_response resp = Inr (Tool t (parse_args json_loads (strip block)))"
proof -
  have tool: "str_in ''TOOL:'' (strip resp)" using assms(1) by (simp add: tool_marker_strip)
  then obtain after_tool where 1: "split_at_1 ''TOOL:'' (strip resp) = Inr after_tool"
    using split_at_1_found [of "''TOOL:''" "strip resp"] by auto
  have args: "str_in ''ARGS:'' (strip resp)" using assms(2) by (rule split_at_1_Inr_D)
  show ?thesis
    using tool args 1 assms(2)
    by (simp add: parse_response_def parse_response_with_def tool_call_def Let_def)
qed

section \<open>The response parser\<close>

lemma py_print_encodable: "(\<And>c. encodable c) \<Longrightarrow> py_print encodable s = Inr ()"
  by (simp add: py_print_def list_all_iff)

lemma py_print_utf8: "py_print utf8_encodable s = Inr ()"
  by (rule py_print_encodable) (simp add: utf8_encodable_def)

text \<open>
  In \<open>agent.py\<close> the tool marker is looked for first: a text with both markers is parsed
  as a tool call, whatever \<open>json.loads\<close> does with the arguments and whatever the
  encoding of the output is.
\<close>

theorem parse_priority_agent:
  assumes "str_in ''TOOL:'' resp" and "str_in ''ANSWER:'' resp"
  shows "\<exists>t a. parse_response_with loads encodable resp = Inr (Tool t a)"
proof -
  have "str_in ''TOOL:'' (strip resp)" using assms(1) by (simp add: tool_marker_strip)
  moreover from this obtain t a where "tool_call loads (strip resp) = Inr (Tool t a)"
    using tool_call_total by blast
  ultimately show ?thesis by (simp add: parse_response_with_def Let_def)
qed

theorem parse_priority_agent_witness:
  "\<exists>t a. parse_response ''TOOL: docker_ps\<newline>ANSWER: done'' = Inr (Tool t a)"
proof -
  have h1: "str_in ''TOOL:'' ''TOOL: docker_ps\<newline>ANSWER: done''" by simp
  have h2: "str_in ''ANSWER:'' ''TOOL: docker_ps\<newline>ANSWER: done''" by simp
  show ?thesis unfolding parse_response_def by (rule parse_priority_agent [OF h1 h2])
qed

text \<open>
  C1: \<open>parse_response\<close> of \<open>agent_fixed.py\<close> looks for the answer marker first. The text
  \<open>TOOL: docker_ps\<close>, newline, \<open>ANSWER: done\<close> has both markers and is parsed as the
  answer \<open>done\<close>, where \<open>agent.py\<close> returns a tool call.
\<close>

theorem parse_priority_fixed:
  "str_in ''TOOL:'' ''TOOL: docker_ps\<newline>ANSWER: done'' \<and>
   str_in ''ANSWER:'' ''TOOL: docker_ps\<newline>ANSWER: done'' \<and>
   parse_response_fixed json_loads Thought ''TOOL: docker_ps\<newline>ANSWER: done'' =
     Inr (Answer ''done'')"
  by (simp add: parse_response_fixed_def strip_def isspace_def split_at_1_def)

text \<open>
  Every operation of \<open>parse_response\<close> that can raise is inside a \<open>try\<close>, the \<open>print\<close> of
  the raw-command branch apart: when the output can encode every character, a value is
  returned for every text, whether \<open>json.loads\<close> returns or raises.
\<close>

theorem parse_total_encodable:
  assumes "\<And>c. encodable c"
  shows "\<exists>p. parse_response_with loads encodable resp = Inr p"
proof (cases "str_in ''TOOL:'' (strip resp)")
  case True
  then show ?thesis by (simp add: parse_response_with_def Let_def split: sum.splits)
next
  case False
  show ?thesis
  proof (cases "str_in ''ANSWER:'' (strip resp)")
    case True
    then obtain a where "split_at_1 ''ANSWER:'' (strip resp) = Inr a"
      using split_at_1_found [of "''ANSWER:''" "strip resp"] by auto
    then show ?thesis using False True by (simp add: parse_response_with_def Let_def)
  next
    case F2: False
    then show ?thesis using False
      by (simp add: parse_response_with_def Let_def py_print_encodable [OF assms])
  qed
qed

text \<open>
  C6: the text \<open>docker ps\<close>, a space and the character U+0081 has neither marker and
  matches the raw pattern \<open>docker ps\<close>; with an output in code page 1252 the \<open>print\<close> of
  line 156 raises UnicodeEncodeError, and the exception leaves \<open>parse_response\<close>.
\<close>

theorem parse_raises_on_print:
  "parse_response_with json_loads cp1252_encodable (''docker ps '' @ [CHR 0x81]) =
     Inl UnicodeEncodeError"
  by (simp add: parse_response_with_def strip_def isspace_def raw_patterns_def lower_def
      lower_char_def split_at_0_def strip_prefixes_def py_print_def cp1252_encodable_def)

text \<open>
  C7: when the text has a \<open>TOOL:\<close> marker and the block after its first \<open>ARGS:\<close>
  marker, stripped, is \<open>{not valid json\<close>, \<open>parse_response\<close> of \<open>agent.py\<close> returns a
  tool call whose arguments are the dictionary with the single key \<open>raw\<close> and the value
  \<open>{not valid json\<close>; it does not return an error.
\<close>

theorem args_fallback:
  assumes "str_in ''TOOL:'' resp"
    and "split_at_1 ''ARGS:'' (strip resp) = Inr block"
    and "strip block = ''{not valid json''"
  shows "\<exists>t. parse_response resp = Inr (Tool t (JObject [(''raw'', JStr ''{not valid json'')]))"
  using parse_with_args [OF assms(1,2)] assms(3) by (simp add: parse_args_not_valid)

theorem args_fallback_witness:
  "\<exists>t. parse_response ''TOOL: read_file\<newline>ARGS: {not valid json'' =
     Inr (Tool t (JObject [(''raw'', JStr ''{not valid json'')]))"
proof -
  have h1: "str_in ''TOOL:'' ''TOOL: read_file\<newline>ARGS: {not valid json''" by simp
  have h2: "split_at_1 ''ARGS:'' (strip ''TOOL: read_file\<newline>ARGS: {not valid json'') =
      Inr '' {not valid json''"
    by (simp add: strip_def isspace_def split_at_1_def)
  have h3: "strip '' {not valid json'' = ''{not valid json''"
    by (simp add: strip_def isspace_def)
  show ?thesis by (rule args_fallback [OF h1 h2 h3])
qed

lemma brace_depth_Nil [simp]: "brace_depth [] = 0"
  by (simp add: brace_depth_def)

lemma brace_depth_Cons:
  "brace_depth (c # cs) =
     (if c = CHR ''{'' then 1 else if c = CHR ''}'' then - 1 else 0) + brace_depth cs"
  by (simp add: brace_depth_def)

lemma brace_scan_started:
  assumes "0 < n" and "n \<le> length s"
    and "bc + brace_depth (take n s) = 0"
    and "\<forall>k. 0 < k \<and> k < n \<longrightarrow> bc + brace_depth (take k s) \<noteq> 0"
  shows "brace_scan s idx bc True = idx + n"
  using assms
proof (induction s arbitrary: idx bc n)
  case Nil
  then show ?case by simp
next
  case (Cons ch cs)
  define d :: int where "d = (if ch = CHR ''{'' then 1 else if ch = CHR ''}'' then - 1 else 0)"
  obtain m where n: "n = Suc m" using Cons.prems(1) by (cases n) auto
  have step: "\<And>k. brace_depth (take (Suc k) (ch # cs)) = d + brace_depth (take k cs)"
    by (simp add: brace_depth_Cons d_def)
  show ?case
  proof (cases m)
    case 0
    then have "bc + d = 0" using Cons.prems(3) n step [of 0] by simp
    then show ?thesis using n 0 by (auto simp: d_def Let_def split: if_splits)
  next
    case (Suc m')
    have "0 < Suc 0 \<and> Suc 0 < n" using n Suc by simp
    then have "bc + brace_depth (take (Suc 0) (ch # cs)) \<noteq> 0"
      using Cons.prems(4) by blast
    then have ne: "bc + d \<noteq> 0" using step [of 0] by simp
    have "brace_scan cs (idx + 1) (bc + d) True = (idx + 1) + m"
    proof (rule Cons.IH)
      show "0 < m" using Suc by simp
      show "m \<le> length cs" using Cons.prems(2) n by simp
      show "bc + d + brace_depth (take m cs) = 0" using Cons.prems(3) n step [of m] by simp
      show "\<forall>k. 0 < k \<and> k < m \<longrightarrow> bc + d + brace_depth (take k cs) \<noteq> 0"
      proof (intro allI impI)
        fix k assume "0 < k \<and> k < m"
        then have "0 < Suc k \<and> Suc k < n" using n by simp
        then have "bc + brace_depth (take (Suc k) (ch # cs)) \<noteq> 0"
          using Cons.prems(4) by blast
        then show "bc + d + brace_depth (take k cs) \<noteq> 0" using step [of k] by simp
      qed
    qed
    moreover have "brace_scan (ch # cs) idx bc True = brace_scan cs (idx + 1) (bc + d) True"
      using ne by (auto simp: d_def Let_def)
    ultimately show ?thesis using n by simp
  qed
qed

lemma brace_scan_span:
  assumes "first_balanced_span span"
  shows "brace_scan (span @ rest) 0 0 False = length span"
proof -
  obtain sp where span: "span = CHR ''{'' # sp"
    using assms by (cases span) (auto simp: first_balanced_span_def)
  have d0: "1 + brace_depth sp = 0"
    using assms span by (simp add: first_balanced_span_def brace_depth_Cons)
  then have sp: "sp \<noteq> []" by auto
  have pre: "\<forall>k. 0 < k \<and> k < length sp \<longrightarrow> 1 + brace_depth (take k (sp @ rest)) \<noteq> 0"
  proof (intro allI impI)
    fix k assume k: "0 < k \<and> k < length sp"
    then have "Suc k \<in> set [1..<length span]" using span by auto
    then have "brace_depth (take (Suc k) span) \<noteq> 0"
      using assms unfolding first_balanced_span_def list_all_iff by blast
    then show "1 + brace_depth (take k (sp @ rest)) \<noteq> 0"
      using k span by (simp add: brace_depth_Cons)
  qed
  have "brace_scan (sp @ rest) 1 1 True = 1 + length sp"
  proof (rule brace_scan_started)
    show "0 < length sp" using sp by simp
    show "length sp \<le> length (sp @ rest)" by simp
    show "1 + brace_depth (take (length sp) (sp @ rest)) = 0" using d0 by simp
    show "\<forall>k. 0 < k \<and> k < length sp \<longrightarrow> 1 + brace_depth (take k (sp @ rest)) \<noteq> 0"
      by (rule pre)
  qed
  then show ?thesis using span by (simp add: Let_def)
qed

lemma parse_args_span:
  assumes "first_balanced_span span"
  shows "parse_args loads (span @ rest) =
           (case loads (strip (replace_empty ''```'' (replace_empty ''```json'' span))) of
              Some args \<Rightarrow> args
            | None \<Rightarrow> JObject [(''raw'', JStr (split_at_0 [CHR 0x0A] (span @ rest)))])"
proof -
  have "span \<noteq> []" using assms by (auto simp: first_balanced_span_def)
  then show ?thesis
    by (simp add: parse_args_def brace_scan_span [OF assms] Let_def)
qed

text \<open>
  C8: when the text has a \<open>TOOL:\<close> marker and the block after its first \<open>ARGS:\<close>
  marker, stripped, is \<open>{"a": {"b": 1}}\<close>, a newline and \<open>extra text\<close>, the arguments of
  the tool call are the JSON object \<open>{"a": {"b": 1}}\<close>. More generally, when the block
  begins with its first balanced span, on one line or on several, the arguments are what
  \<open>json.loads\<close> reads from that span, with the markdown fences removed, and the text
  after the span is used only when the span is not JSON.
\<close>

theorem balanced_brace:
  assumes "str_in ''TOOL:'' resp"
    and "split_at_1 ''ARGS:'' (strip resp) = Inr block"
  shows \<open>(strip block = ''{"a": {"b": 1}}\<newline>extra text'' \<longrightarrow>
            (\<exists>t. parse_response resp = Inr (Tool t (JObject [(''a'', JObject [(''b'', JInt 1)])])))) \<and>
         (\<forall>span rest. strip block = span @ rest \<and> first_balanced_span span \<longrightarrow>
            (\<exists>t. parse_response resp =
               Inr (Tool t
                 (case json_loads (strip (replace_empty ''```'' (replace_empty ''```json'' span))) of
                    Some args \<Rightarrow> args
                  | None \<Rightarrow> JObject [(''raw'', JStr (split_at_0 [CHR 0x0A] (span @ rest)))]))))\<close>
proof (intro conjI allI impI)
  assume \<open>strip block = ''{"a": {"b": 1}}\<newline>extra text''\<close>
  then show "\<exists>t. parse_response resp = Inr (Tool t (JObject [(''a'', JObject [(''b'', JInt 1)])]))"
    using parse_with_args [OF assms] by (simp add: parse_args_nested)
next
  fix span rest
  assume a: "strip block = span @ rest \<and> first_balanced_span span"
  then have "parse_args json_loads (strip block) =
      (case json_loads (strip (replace_empty ''```'' (replace_empty ''```json'' span))) of
         Some args \<Rightarrow> args
       | None \<Rightarrow> JObject [(''raw'', JStr (split_at_0 [CHR 0x0A] (span @ rest)))])"
    using parse_args_span [of span json_loads rest] by simp
  then show "\<exists>t. parse_response resp =
               Inr (Tool t
                 (case json_loads (strip (replace_empty ''```'' (replace_empty ''```json'' span))) of
                    Some args \<Rightarrow> args
                  | None \<Rightarrow> JObject [(''raw'', JStr (split_at_0 [CHR 0x0A] (span @ rest)))]))"
    using parse_with_args [OF assms] by simp
qed

theorem balanced_brace_witness:
  \<open>(\<exists>t. parse_response ''TOOL: write_file\<newline>ARGS: {"a": {"b": 1}}\<newline>extra text'' =
     Inr (Tool t (JObject [(''a'', JObject [(''b'', JInt 1)])]))) \<and>
   (\<exists>t. parse_response ''TOOL: write_file\<newline>ARGS: {"a":\<newline> {"b": 1}}\<newline>extra text'' =
     Inr (Tool t (JObject [(''a'', JObject [(''b'', JInt 1)])])))\<close>
proof
  have h1: \<open>str_in ''TOOL:'' ''TOOL: write_file\<newline>ARGS: {"a": {"b": 1}}\<newline>extra text''\<close>
    by simp
  have h2: \<open>split_at_1 ''ARGS:''
      (strip ''TOOL: write_file\<newline>ARGS: {"a": {"b": 1}}\<newline>extra text'') =
      Inr '' {"a": {"b": 1}}\<newline>extra text''\<close>
    by (simp add: strip_def isspace_def split_at_1_def)
  have h3: \<open>strip '' {"a": {"b": 1}}\<newline>extra text'' = ''{"a": {"b": 1}}\<newline>extra text''\<close>
    by (simp add: strip_def isspace_def)
  show \<open>\<exists>t. parse_response ''TOOL: write_file\<newline>ARGS: {"a": {"b": 1}}\<newline>extra text'' =
     Inr (Tool t (JObject [(''a'', JObject [(''b'', JInt 1)])]))\<close>
    using balanced_brace [OF h1 h2] h3 by blast
next
  have h1: \<open>str_in ''TOOL:'' ''TOOL: write_file\<newline>ARGS: {"a":\<newline> {"b": 1}}\<newline>extra text''\<close>
    by simp
  have h2: \<open>split_at_1 ''ARGS:''
      (strip ''TOOL: write_file\<newline>ARGS: {"a":\<newline> {"b": 1}}\<newline>extra text'') =
      Inr '' {"a":\<newline> {"b": 1}}\<newline>extra text''\<close>
    by (simp add: strip_def isspace_def split_at_1_def)
  have h3: \<open>strip '' {"a":\<newline> {"b": 1}}\<newline>extra text'' =
      ''{"a":\<newline> {"b": 1}}'' @ ''\<newline>extra text''\<close>
    by (simp add: strip_def isspace_def)
  have h4: \<open>first_balanced_span ''{"a":\<newline> {"b": 1}}''\<close>
    by code_simp
  have h5: \<open>json_loads (strip (replace_empty ''```'' (replace_empty ''```json'' ''{"a":\<newline> {"b": 1}}''))) =
      Some (JObject [(''a'', JObject [(''b'', JInt 1)])])\<close>
    by code_simp
  show \<open>\<exists>t. parse_response ''TOOL: write_file\<newline>ARGS: {"a":\<newline> {"b": 1}}\<newline>extra text'' =
     Inr (Tool t (JObject [(''a'', JObject [(''b'', JInt 1)])]))\<close>
    using balanced_brace [OF h1 h2] h3 h4 h5 by (metis option.simps(5))
qed

text \<open>
  C10 (amended): a text with a \<open>TOOL:\<close> marker, no \<open>ARGS:\<close> marker and no \<open>ANSWER:\<close>
  marker is parsed as a tool call with the empty dictionary as arguments, in \<open>agent.py\<close>
  and in \<open>agent_fixed.py\<close>. The tool name is the first line after the marker, stripped,
  in \<open>agent_fixed.py\<close>; \<open>agent.py\<close> cuts that line at its first opening parenthesis, when
  it has one, and strips again.
\<close>

theorem no_args:
  assumes "str_in ''TOOL:'' resp"
    and "\<not> str_in ''ARGS:'' resp"
    and "\<not> str_in ''ANSWER:'' resp"
  shows "\<exists>after_tool. split_at_1 ''TOOL:'' (strip resp) = Inr after_tool \<and>
           parse_response resp =
             Inr (Tool (let line = strip (split_at_0 [CHR 0x0A] after_tool)
                        in if str_in ''('' line then strip (split_at_0 ''('' line) else line)
                       (JObject [])) \<and>
           parse_response_fixed json_loads fallback resp =
             Inr (Tool (strip (split_at_0 [CHR 0x0A] after_tool)) (JObject []))"
proof -
  have tool: "str_in ''TOOL:'' (strip resp)" using assms(1) by (simp add: tool_marker_strip)
  have args: "\<not> str_in ''ARGS:'' (strip resp)" using assms(2) by (simp add: args_marker_strip)
  have ans: "\<not> str_in ''ANSWER:'' (strip resp)" using assms(3) by (simp add: answer_marker_strip)
  obtain after_tool where 1: "split_at_1 ''TOOL:'' (strip resp) = Inr after_tool"
    using split_at_1_found [of "''TOOL:''" "strip resp"] tool by auto
  have a: "parse_response resp =
             Inr (Tool (let line = strip (split_at_0 [CHR 0x0A] after_tool)
                        in if str_in ''('' line then strip (split_at_0 ''('' line) else line)
                       (JObject []))"
    using tool args 1
    by (simp add: parse_response_def parse_response_with_def tool_call_def Let_def parse_args_empty)
  have "split_at_0 [CHR 0x0A] ''{}'' = ''{}''" by (simp add: split_at_0_def)
  then have b: "parse_response_fixed json_loads fallback resp =
             Inr (Tool (strip (split_at_0 [CHR 0x0A] after_tool)) (JObject []))"
    using tool args ans 1
    by (simp add: parse_response_fixed_def Let_def json_loads_empty_object)
  show ?thesis using 1 a b by blast
qed

theorem no_args_witness:
  "parse_response ''TOOL: read_file(path)\<newline>now'' = Inr (Tool ''read_file'' (JObject [])) \<and>
   parse_response_fixed json_loads Thought ''TOOL: read_file(path)\<newline>now'' =
     Inr (Tool ''read_file(path)'' (JObject []))"
proof -
  have h1: "str_in ''TOOL:'' ''TOOL: read_file(path)\<newline>now''" by simp
  have h2: "\<not> str_in ''ARGS:'' ''TOOL: read_file(path)\<newline>now''" by simp
  have h3: "\<not> str_in ''ANSWER:'' ''TOOL: read_file(path)\<newline>now''" by simp
  have "split_at_1 ''TOOL:'' (strip ''TOOL: read_file(path)\<newline>now'') =
      Inr '' read_file(path)\<newline>now''"
    by (simp add: strip_def isspace_def split_at_1_def)
  moreover have "strip (split_at_0 [CHR 0x0A] '' read_file(path)\<newline>now'') = ''read_file(path)''"
    by (simp add: strip_def isspace_def split_at_0_def)
  moreover have "str_in ''('' ''read_file(path)''" by simp
  moreover have "strip (split_at_0 ''('' ''read_file(path)'') = ''read_file''"
    by (simp add: strip_def isspace_def split_at_0_def)
  ultimately show ?thesis
    using no_args [OF h1 h2 h3, of Thought] by (auto simp: Let_def)
qed

theorem no_args_counterexample:
  "str_in ''TOOL:'' ''TOOL: list_files(path)'' \<and>
   \<not> str_in ''ARGS:'' ''TOOL: list_files(path)'' \<and>
   \<not> str_in ''ANSWER:'' ''TOOL: list_files(path)'' \<and>
   parse_response ''TOOL: list_files(path)'' = Inr (Tool ''list_files'' (JObject [])) \<and>
   parse_response_fixed json_loads Thought ''TOOL: list_files(path)'' =
     Inr (Tool ''list_files(path)'' (JObject []))"
  by (simp add: parse_response_def parse_response_with_def parse_response_fixed_def
      tool_call_def strip_def isspace_def split_at_1_def split_at_0_def parse_args_empty
      json_loads_empty_object)

section \<open>The loop of \<open>run\<close>\<close>

lemma force_tool_use_cases:
  "force_tool_use task resp = resp \<or> str_in ''TOOL:'' (force_tool_use task resp)"
  by (simp add: force_tool_use_def Let_def)

lemma parse_not_answer:
  assumes "str_in ''TOOL:'' resp \<or> \<not> str_in ''ANSWER:'' resp"
  shows "\<exists>p. parse_response resp = Inr p \<and> (\<forall>c. p \<noteq> Answer c)"
proof (cases "str_in ''TOOL:'' (strip resp)")
  case True
  then obtain t a where "tool_call json_loads (strip resp) = Inr (Tool t a)"
    using tool_call_total by blast
  then show ?thesis using True
    by (simp add: parse_response_def parse_response_with_def Let_def)
next
  case False
  then have "\<not> str_in ''ANSWER:'' (strip resp)"
    using assms by (simp add: tool_marker_strip answer_marker_strip)
  then show ?thesis using False
    by (simp add: parse_response_def parse_response_with_def Let_def py_print_utf8)
qed

lemma run_loop_no_answer:
  assumes H: "\<forall>msgs. \<not> str_in ''TOOL:'' (llm msgs) \<and> \<not> str_in ''ANSWER:'' (llm msgs)"
  shows "\<exists>recs. run_loop llm tool aid task k i msgs hist = (None, hist @ recs) \<and>
           map iteration recs = map (\<lambda>j. i + 1 + int j) [0..<k]"
proof (induction k arbitrary: i msgs hist)
  case 0
  then show ?case by simp
next
  case (Suc k)
  define resp where
    "resp = (if i = 0 \<and> \<not> str_in ''TOOL:'' (llm msgs) then force_tool_use task (llm msgs)
             else llm msgs)"
  have "str_in ''TOOL:'' resp \<or> \<not> str_in ''ANSWER:'' resp"
    unfolding resp_def using H force_tool_use_cases [of task "llm msgs"] by auto
  then obtain p where p: "parse_response resp = Inr p" "\<And>c. p \<noteq> Answer c"
    using parse_not_answer by blast
  define item where "item = \<lparr>iteration = i + 1, response = resp, parsed = p\<rparr>"
  have "\<exists>msgs'. run_loop llm tool aid task (Suc k) i msgs hist =
          run_loop llm tool aid task k (i + 1) msgs' (hist @ [item])"
    using p by (cases p) (auto simp: Let_def resp_def item_def)
  then obtain msgs' where step: "run_loop llm tool aid task (Suc k) i msgs hist =
          run_loop llm tool aid task k (i + 1) msgs' (hist @ [item])" by blast
  obtain recs where recs: "run_loop llm tool aid task k (i + 1) msgs' (hist @ [item]) =
        (None, (hist @ [item]) @ recs)" "map iteration recs = map (\<lambda>j. (i + 1) + 1 + int j) [0..<k]"
    using Suc.IH by blast
  have "map (\<lambda>j. i + 1 + int j) [0..<Suc k] = (i + 1) # map (\<lambda>j. i + 1 + int j) (map Suc [0..<k])"
    by (simp only: map_Suc_upt) (simp add: upt_conv_Cons del: upt_Suc)
  also have "\<dots> = map iteration (item # recs)"
    using recs(2) by (simp add: item_def comp_def algebra_simps)
  finally have "map iteration (item # recs) = map (\<lambda>j. i + 1 + int j) [0..<Suc k]" by simp
  moreover have "run_loop llm tool aid task (Suc k) i msgs hist = (None, hist @ (item # recs))"
    using step recs(1) by simp
  ultimately show ?case by blast
qed

lemma run_loop_hist:
  "run_loop llm tool aid task k i msgs hist =
     (case run_loop llm tool aid task k i msgs [] of (r, recs) \<Rightarrow> (r, hist @ recs))"
proof (induction k arbitrary: i msgs hist)
  case 0
  then show ?case by simp
next
  case (Suc k)
  define resp where
    "resp = (if i = 0 \<and> \<not> str_in ''TOOL:'' (llm msgs) then force_tool_use task (llm msgs)
             else llm msgs)"
  show ?case
  proof (cases "parse_response resp")
    case (Inl e)
    then show ?thesis by (simp add: Let_def resp_def)
  next
    case (Inr p)
    define item where "item = \<lparr>iteration = i + 1, response = resp, parsed = p\<rparr>"
    show ?thesis
    proof (cases "\<exists>c. p = Answer c")
      case True
      then show ?thesis using Inr by (auto simp: Let_def resp_def)
    next
      case False
      then have "\<exists>msgs'. \<forall>h. run_loop llm tool aid task (Suc k) i msgs h =
          run_loop llm tool aid task k (i + 1) msgs' (h @ [item])"
        using Inr by (cases p) (auto simp: Let_def resp_def item_def)
      then obtain msgs' where step: "\<And>h. run_loop llm tool aid task (Suc k) i msgs h =
          run_loop llm tool aid task k (i + 1) msgs' (h @ [item])" by blast
      have "run_loop llm tool aid task (Suc k) i msgs hist =
          (case run_loop llm tool aid task k (i + 1) msgs' [] of (r, recs) \<Rightarrow> (r, (hist @ [item]) @ recs))"
        using step [of hist] Suc.IH [of "i + 1" msgs' "hist @ [item]"] by simp
      moreover have "run_loop llm tool aid task (Suc k) i msgs [] =
          (case run_loop llm tool aid task k (i + 1) msgs' [] of (r, recs) \<Rightarrow> (r, [item] @ recs))"
        using step [of "[]"] Suc.IH [of "i + 1" msgs' "[] @ [item]"] by simp
      ultimately show ?thesis by (simp split: prod.splits)
    qed
  qed
qed

lemma run_loop_None_length:
  "run_loop llm tool aid task k i msgs [] = (None, recs) \<Longrightarrow> length recs = k"
proof (induction k arbitrary: i msgs recs)
  case 0
  then show ?case by simp
next
  case (Suc k)
  define resp where
    "resp = (if i = 0 \<and> \<not> str_in ''TOOL:'' (llm msgs) then force_tool_use task (llm msgs)
             else llm msgs)"
  show ?case
  proof (cases "parse_response resp")
    case (Inl e)
    then show ?thesis using Suc.prems by (simp add: Let_def resp_def)
  next
    case (Inr p)
    define item where "item = \<lparr>iteration = i + 1, response = resp, parsed = p\<rparr>"
    show ?thesis
    proof (cases "\<exists>c. p = Answer c")
      case True
      then show ?thesis using Inr Suc.prems by (auto simp: Let_def resp_def)
    next
      case False
      then have "\<exists>msgs'. run_loop llm tool aid task (Suc k) i msgs [] =
          run_loop llm tool aid task k (i + 1) msgs' [item]"
        using Inr by (cases p) (auto simp: Let_def resp_def item_def)
      then obtain msgs' where step: "run_loop llm tool aid task (Suc k) i msgs [] =
          run_loop llm tool aid task k (i + 1) msgs' [item]" by blast
      obtain r recs' where rr: "run_loop llm tool aid task k (i + 1) msgs' [] = (r, recs')"
        by (cases "run_loop llm tool aid task k (i + 1) msgs' []") auto
      have "run_loop llm tool aid task k (i + 1) msgs' [item] = (r, [item] @ recs')"
        using run_loop_hist [of llm tool aid task k "i + 1" msgs' "[item]"] rr by simp
      then have "r = None" "recs = item # recs'" using step Suc.prems by auto
      then show ?thesis using Suc.IH [of "i + 1" msgs' recs'] rr by simp
    qed
  qed
qed

lemma parse_answer_42: "parse_response ''ANSWER: 42'' = Inr (Answer ''42'')"
  by (simp add: parse_response_def parse_response_with_def strip_def isspace_def split_at_1_def)

lemma parse_forced_docker:
  "parse_response ''TOOL: docker_ps\<newline>ARGS: {}'' = Inr (Tool ''docker_ps'' (JObject []))"
  by (simp add: parse_response_def parse_response_with_def tool_call_def strip_def isspace_def
      split_at_1_def split_at_0_def parse_args_empty)

lemma run_hist_split:
  "run llm tool a task =
     (case run_loop llm tool (agent_id a) task (nat (max_iterations a)) 0
             (initial_messages a task) [] of
        (Some r, recs) \<Rightarrow> (r, a\<lparr>history := history a @ recs\<rparr>)
      | (None, recs) \<Rightarrow>
          (Inr (MaxIterations (agent_id a) (last_three (history a @ recs)) (max_iterations a)),
           a\<lparr>history := history a @ recs\<rparr>))"
  unfolding run_def
  by (subst run_loop_hist) (simp split: prod.splits option.splits)

lemma initial_messages_history [simp]:
  "initial_messages (a\<lparr>history := h\<rparr>) task = initial_messages a task"
  by (simp add: initial_messages_def)

lemma last_three_append: "3 \<le> length ys \<Longrightarrow> last_three (xs @ ys) = last_three ys"
  by (simp add: last_three_def)

lemma parse_thought: "parse_response ''Let me think about it.'' = Inr (Thought ''Let me think about it.'')"
  by (simp add: parse_response_def parse_response_with_def strip_def isspace_def raw_patterns_def
      lower_def lower_char_def)

lemma last_three_suffix: "\<exists>pre. xs = pre @ last_three xs"
  unfolding last_three_def by (metis append_take_drop_id)

lemma length_last_three: "length (last_three xs) = min 3 (length xs)"
  by (simp add: last_three_def)

lemma run_loop_parsed:
  "run_loop llm tool aid task k i msgs [] = (r, recs) \<Longrightarrow>
     list_all (\<lambda>x. parse_response (response x) = Inr (parsed x)) recs"
proof (induction k arbitrary: i msgs r recs)
  case 0
  then show ?case by simp
next
  case (Suc k)
  define resp where
    "resp = (if i = 0 \<and> \<not> str_in ''TOOL:'' (llm msgs) then force_tool_use task (llm msgs)
             else llm msgs)"
  show ?case
  proof (cases "parse_response resp")
    case (Inl e)
    then show ?thesis using Suc.prems by (auto simp: Let_def resp_def)
  next
    case (Inr p)
    define item where "item = \<lparr>iteration = i + 1, response = resp, parsed = p\<rparr>"
    have item: "parse_response (response item) = Inr (parsed item)"
      using Inr by (simp add: item_def)
    show ?thesis
    proof (cases "\<exists>c. p = Answer c")
      case True
      then have "recs = [item]" using Inr Suc.prems by (auto simp: Let_def resp_def item_def)
      then show ?thesis using item by simp
    next
      case False
      then have "\<exists>msgs'. run_loop llm tool aid task (Suc k) i msgs [] =
          run_loop llm tool aid task k (i + 1) msgs' [item]"
        using Inr by (cases p) (auto simp: Let_def resp_def item_def)
      then obtain msgs' where step: "run_loop llm tool aid task (Suc k) i msgs [] =
          run_loop llm tool aid task k (i + 1) msgs' [item]" by blast
      obtain r' recs' where rr: "run_loop llm tool aid task k (i + 1) msgs' [] = (r', recs')"
        by (cases "run_loop llm tool aid task k (i + 1) msgs' []") auto
      have "run_loop llm tool aid task k (i + 1) msgs' [item] = (r', [item] @ recs')"
        using run_loop_hist [of llm tool aid task k "i + 1" msgs' "[item]"] rr by simp
      then have "recs = item # recs'" using step Suc.prems by auto
      then show ?thesis using Suc.IH [OF rr] item by simp
    qed
  qed
qed

lemma run_loop_Some_Complete:
  "run_loop llm tool aid task k i msgs hist = (Some (Inr res), h') \<Longrightarrow>
     \<exists>c n. res = Complete aid c n"
proof (induction k arbitrary: i msgs hist)
  case 0
  then show ?case by simp
next
  case (Suc k)
  define resp where
    "resp = (if i = 0 \<and> \<not> str_in ''TOOL:'' (llm msgs) then force_tool_use task (llm msgs)
             else llm msgs)"
  show ?case
  proof (cases "parse_response resp")
    case (Inl e)
    then show ?thesis using Suc.prems by (simp add: Let_def resp_def)
  next
    case (Inr p)
    show ?thesis
    proof (cases "\<exists>c. p = Answer c")
      case True
      then show ?thesis using Inr Suc.prems by (auto simp: Let_def resp_def)
    next
      case False
      then have "\<exists>msgs' hist'. run_loop llm tool aid task (Suc k) i msgs hist =
          run_loop llm tool aid task k (i + 1) msgs' hist'"
        using Inr by (cases p) (auto simp: Let_def resp_def)
      then show ?thesis using Suc.prems Suc.IH by metis
    qed
  qed
qed

text \<open>
  C2: when no response of the model contains the marker \<open>TOOL:\<close> or the marker
  \<open>ANSWER:\<close> (a thought, or a raw command that the fallback turns into a tool call),
  \<open>run\<close> goes through the loop once for each of the \<open>max_iterations\<close> iterations,
  appending the records numbered 1 to \<open>max_iterations\<close> to the history, each with the
  response and what it was parsed as, and returns the result with status
  \<open>max_iterations\<close> and \<open>iterations = max_iterations\<close>. Its partial history is the end
  of the history, three records long or the whole history when that is shorter; these
  are the last records of this run when the agent had no records before or
  \<open>max_iterations\<close> is at least 3.
\<close>

theorem iteration_budget:
  assumes "\<forall>msgs. \<not> str_in ''TOOL:'' (llm msgs) \<and> \<not> str_in ''ANSWER:'' (llm msgs)"
  shows "\<exists>recs trace pre.
           fst (run llm tool a task) =
             Inr (MaxIterations (agent_id a) trace (max_iterations a)) \<and>
           snd (run llm tool a task) = a\<lparr>history := history a @ recs\<rparr> \<and>
           map iteration recs = map int [1..<Suc (nat (max_iterations a))] \<and>
           list_all (\<lambda>x. parse_response (response x) = Inr (parsed x)) recs \<and>
           history a @ recs = pre @ trace \<and>
           length trace = min 3 (length (history a) + nat (max_iterations a)) \<and>
           (history a = [] \<or> 3 \<le> max_iterations a \<longrightarrow> (\<exists>pre'. recs = pre' @ trace))"
proof -
  obtain recs where recs:
    "run_loop llm tool (agent_id a) task (nat (max_iterations a)) 0 (initial_messages a task)
       (history a) = (None, history a @ recs)"
    "map iteration recs = map (\<lambda>j. 0 + 1 + int j) [0..<nat (max_iterations a)]"
    using run_loop_no_answer [OF assms] by blast
  have "map int [1..<Suc (nat (max_iterations a))] = map int (map Suc [0..<nat (max_iterations a)])"
    by (simp only: map_Suc_upt) simp
  then have it: "map iteration recs = map int [1..<Suc (nat (max_iterations a))]"
    using recs(2) by (simp add: comp_def)
  have "length (map iteration recs) = nat (max_iterations a)" using recs(2) by simp
  then have len: "length recs = nat (max_iterations a)" by simp
  obtain r0 recs0 where r0: "run_loop llm tool (agent_id a) task (nat (max_iterations a)) 0
       (initial_messages a task) [] = (r0, recs0)"
    by (cases "run_loop llm tool (agent_id a) task (nat (max_iterations a)) 0
       (initial_messages a task) []") auto
  have "recs0 = recs"
    using run_loop_hist [of llm tool "agent_id a" task "nat (max_iterations a)" 0
        "initial_messages a task" "history a"] r0 recs(1) by simp
  then have parsed: "list_all (\<lambda>x. parse_response (response x) = Inr (parsed x)) recs"
    using run_loop_parsed [OF r0] by simp
  define trace where "trace = last_three (history a @ recs)"
  obtain pre where pre: "history a @ recs = pre @ trace"
    unfolding trace_def using last_three_suffix by blast
  have lt: "length trace = min 3 (length (history a) + nat (max_iterations a))"
    by (simp add: trace_def length_last_three len)
  have suf: "history a = [] \<or> 3 \<le> max_iterations a \<longrightarrow> (\<exists>pre'. recs = pre' @ trace)"
  proof
    assume "history a = [] \<or> 3 \<le> max_iterations a"
    then have "trace = last_three recs"
      using len by (auto simp: trace_def last_three_append)
    then show "\<exists>pre'. recs = pre' @ trace" using last_three_suffix by simp
  qed
  have "fst (run llm tool a task) = Inr (MaxIterations (agent_id a) trace (max_iterations a))"
    "snd (run llm tool a task) = a\<lparr>history := history a @ recs\<rparr>"
    using recs(1) by (simp_all add: run_def trace_def)
  then show ?thesis using it parsed pre lt suf by blast
qed

theorem iteration_budget_witness:
  "\<exists>recs trace pre.
     fst (run (constant_llm ''Let me think about it.'') (constant_tool ''ok'')
            (AgentWorker ''agent-0'' ''lfm2-1.2b'') ''Say hello'') =
       Inr (MaxIterations ''agent-0'' trace 10) \<and>
     snd (run (constant_llm ''Let me think about it.'') (constant_tool ''ok'')
            (AgentWorker ''agent-0'' ''lfm2-1.2b'') ''Say hello'') =
       (AgentWorker ''agent-0'' ''lfm2-1.2b'')\<lparr>history := recs\<rparr> \<and>
     map iteration recs = [1, 2, 3, 4, 5, 6, 7, 8, 9, 10] \<and>
     recs = pre @ trace \<and>
     map iteration trace = [8, 9, 10]"
proof -
  have h: "\<forall>msgs. \<not> str_in ''TOOL:'' (constant_llm ''Let me think about it.'' msgs) \<and>
                  \<not> str_in ''ANSWER:'' (constant_llm ''Let me think about it.'' msgs)"
    by (simp add: constant_llm_def)
  obtain recs trace pre where w:
    "fst (run (constant_llm ''Let me think about it.'') (constant_tool ''ok'')
            (AgentWorker ''agent-0'' ''lfm2-1.2b'') ''Say hello'') =
       Inr (MaxIterations ''agent-0'' trace 10)"
    "snd (run (constant_llm ''Let me think about it.'') (constant_tool ''ok'')
            (AgentWorker ''agent-0'' ''lfm2-1.2b'') ''Say hello'') =
       (AgentWorker ''agent-0'' ''lfm2-1.2b'')\<lparr>history := recs\<rparr>"
    "map iteration recs = map int [1..<11]"
    "recs = pre @ trace"
    "length trace = 3"
    using iteration_budget [OF h, of "constant_tool ''ok''" "AgentWorker ''agent-0'' ''lfm2-1.2b''"
        "''Say hello''"]
    by (auto simp: AgentWorker_def)
  have up: "map int [1..<11] = [1, 2, 3, 4, 5, 6, 7, 8, 9, 10]"
    by code_simp
  have it: "map iteration recs = [1, 2, 3, 4, 5, 6, 7, 8, 9, 10]"
    using w(3) up by simp
  have "length (map iteration recs) = 10" by (simp only: it) simp
  then have "length recs = 10" by simp
  then have "length pre = 7" using w(4,5) by simp
  then have lp: "length (map iteration pre) = 7" by simp
  have "map iteration pre @ map iteration trace = [1, 2, 3, 4, 5, 6, 7, 8, 9, 10]"
    using it w(4) by simp
  then have "drop 7 (map iteration pre @ map iteration trace) =
      drop 7 [1, 2, 3, 4, 5, 6, 7, 8, 9, 10]" by (rule arg_cong)
  then have tr: "map iteration trace = [8, 9, 10]" using lp by simp
  show ?thesis
    apply (rule exI [of _ recs])
    apply (rule exI [of _ trace])
    apply (rule exI [of _ pre])
    using w(1,2,4) it tr by simp
qed

text \<open>
  C3 (amended): when the task matches none of the patterns of the first-turn override
  (docker with list or container; kubernetes or pod; file with list; status or check,
  all in lower case) and \<open>max_iterations\<close> is at least 1, a model that answers the first
  query with \<open>ANSWER: 42\<close> makes \<open>run\<close> return status complete, answer \<open>42\<close> and
  \<open>iterations = 1\<close>.
\<close>

theorem answer_short_circuit:
  assumes "llm (initial_messages a task) = ''ANSWER: 42''"
    and "0 < max_iterations a"
    and "\<not> (str_in ''docker'' (lower task) \<and>
            (str_in ''list'' (lower task) \<or> str_in ''container'' (lower task)))"
    and "\<not> (str_in ''kubernetes'' (lower task) \<or> str_in ''pod'' (lower task))"
    and "\<not> (str_in ''file'' (lower task) \<and> str_in ''list'' (lower task))"
    and "\<not> (str_in ''status'' (lower task) \<or> str_in ''check'' (lower task))"
  shows "fst (run llm tool a task) = Inr (Complete (agent_id a) ''42'' 1)"
proof -
  obtain k where k: "nat (max_iterations a) = Suc k"
    using assms(2) by (cases "nat (max_iterations a)") auto
  have f: "force_tool_use task ''ANSWER: 42'' = ''ANSWER: 42''"
    using assms(3-6) by (simp add: force_tool_use_def Let_def)
  show ?thesis
    using assms(1) by (simp add: run_def k f parse_answer_42 Let_def)
qed

theorem answer_short_circuit_witness:
  "fst (run (constant_llm ''ANSWER: 42'') (constant_tool ''ok'')
          (AgentWorker ''agent-0'' ''lfm2-1.2b'') ''What is six times seven?'') =
     Inr (Complete ''agent-0'' ''42'' 1)"
proof -
  have "fst (run (constant_llm ''ANSWER: 42'') (constant_tool ''ok'')
          (AgentWorker ''agent-0'' ''lfm2-1.2b'') ''What is six times seven?'') =
     Inr (Complete (agent_id (AgentWorker ''agent-0'' ''lfm2-1.2b'')) ''42'' 1)"
    by (rule answer_short_circuit)
      (simp_all add: constant_llm_def AgentWorker_def lower_def lower_char_def)
  then show ?thesis by (simp add: AgentWorker_def)
qed

theorem answer_short_circuit_counterexample:
  "fst (run (constant_llm ''ANSWER: 42'') (constant_tool ''ok'')
          (AgentWorker ''cli-agent'' ''lfm2-1.2b'') ''Check docker container status'') =
     Inr (Complete ''cli-agent'' ''42'' 2)"
proof -
  have f: "force_tool_use ''Check docker container status'' ''ANSWER: 42'' =
      ''TOOL: docker_ps\<newline>ARGS: {}''"
    by (simp add: force_tool_use_def lower_def lower_char_def)
  show ?thesis
    by (simp add: run_def AgentWorker_def eval_nat_numeral constant_llm_def f
        parse_forced_docker parse_answer_42)
qed

text \<open>
  C9 (amended): \<open>run\<close> builds its messages afresh and keeps none of them, but it
  appends its iteration records to the field \<open>history\<close> of the agent, which is set only
  in \<open>__init__\<close>: after a run the field holds the records it held before followed by
  the records of this run, and no other field changes. The status, the answer and the
  iteration count that a run returns do not depend on the records already there. The
  partial history of a result with status \<open>max_iterations\<close> is the end of the
  accumulated history, three records long or all of it when it is shorter; when
  \<open>max_iterations\<close> is at least 3 these are records of this run and the whole result is
  the one an agent without earlier records returns.
\<close>

theorem history_persists:
  "\<exists>recs.
     snd (run llm tool a task) = a\<lparr>history := history a @ recs\<rparr> \<and>
     snd (run llm tool (a\<lparr>history := []\<rparr>) task) = a\<lparr>history := recs\<rparr> \<and>
     map_sum id status (fst (run llm tool a task)) =
       map_sum id status (fst (run llm tool (a\<lparr>history := []\<rparr>) task)) \<and>
     map_sum id answer (fst (run llm tool a task)) =
       map_sum id answer (fst (run llm tool (a\<lparr>history := []\<rparr>) task)) \<and>
     map_sum id iterations (fst (run llm tool a task)) =
       map_sum id iterations (fst (run llm tool (a\<lparr>history := []\<rparr>) task)) \<and>
     (\<forall>aid trace n. fst (run llm tool a task) = Inr (MaxIterations aid trace n) \<longrightarrow>
        (\<exists>pre. history a @ recs = pre @ trace) \<and>
        length trace = min 3 (length (history a) + length recs)) \<and>
     (3 \<le> max_iterations a \<longrightarrow>
        fst (run llm tool a task) = fst (run llm tool (a\<lparr>history := []\<rparr>) task))"
proof -
  obtain r recs where rr: "run_loop llm tool (agent_id a) task (nat (max_iterations a)) 0
             (initial_messages a task) [] = (r, recs)"
    by (cases "run_loop llm tool (agent_id a) task (nat (max_iterations a)) 0
             (initial_messages a task) []") auto
  have tr: "(\<exists>pre. history a @ recs = pre @ last_three (history a @ recs)) \<and>
      length (last_three (history a @ recs)) = min 3 (length (history a) + length recs)"
    using last_three_suffix [of "history a @ recs"] by (simp add: length_last_three)
  show ?thesis
  proof (cases r)
    case None
    then have len: "length recs = nat (max_iterations a)"
      using rr run_loop_None_length by blast
    show ?thesis
      apply (rule exI [of _ recs])
      using None rr len tr
      by (auto simp: run_hist_split [of llm tool a] run_hist_split [of llm tool "a\<lparr>history := []\<rparr>"]
          last_three_append)
  next
    case (Some x)
    have nomax: "\<And>aid trace n. x \<noteq> Inr (MaxIterations aid trace n)"
      using rr Some run_loop_Some_Complete by fastforce
    show ?thesis
      apply (rule exI [of _ recs])
      using rr Some nomax
      by (auto simp: run_hist_split [of llm tool a] run_hist_split [of llm tool "a\<lparr>history := []\<rparr>"])
  qed
qed

theorem history_persists_witness:
  "fst (run (constant_llm ''Let me think about it.'') (constant_tool ''ok'')
         ((AgentWorker ''agent-0'' ''lfm2-1.2b'')
            \<lparr>history := [\<lparr>iteration = 1, response = ''old'', parsed = Thought ''old''\<rparr>]\<rparr>)
         ''Say hello'') =
   fst (run (constant_llm ''Let me think about it.'') (constant_tool ''ok'')
         ((AgentWorker ''agent-0'' ''lfm2-1.2b'')
            \<lparr>history := [\<lparr>iteration = 1, response = ''old'', parsed = Thought ''old''\<rparr>],
             history := []\<rparr>)
         ''Say hello'')"
proof -
  have h: "3 \<le> max_iterations ((AgentWorker ''agent-0'' ''lfm2-1.2b'')
            \<lparr>history := [\<lparr>iteration = 1, response = ''old'', parsed = Thought ''old''\<rparr>]\<rparr>)"
    by (simp add: AgentWorker_def)
  show ?thesis
    using history_persists [of "constant_llm ''Let me think about it.''" "constant_tool ''ok''"
        "(AgentWorker ''agent-0'' ''lfm2-1.2b'')
            \<lparr>history := [\<lparr>iteration = 1, response = ''old'', parsed = Thought ''old''\<rparr>]\<rparr>"
        "''Say hello''"] h
    by blast
qed

theorem history_persists_counterexample:
  "history (snd (run (constant_llm ''Let me think about it.'') (constant_tool ''ok'')
                  ((AgentWorker ''agent-0'' ''lfm2-1.2b'')\<lparr>max_iterations := 1\<rparr>) ''Say hello'')) =
     [\<lparr>iteration = 1, response = ''Let me think about it.'',
       parsed = Thought ''Let me think about it.''\<rparr>] \<and>
   fst (run (constant_llm ''Let me think about it.'') (constant_tool ''ok'')
          ((AgentWorker ''agent-0'' ''lfm2-1.2b'')\<lparr>max_iterations := 1\<rparr>) ''Say hello'') =
     Inr (MaxIterations ''agent-0''
            [\<lparr>iteration = 1, response = ''Let me think about it.'',
              parsed = Thought ''Let me think about it.''\<rparr>] 1) \<and>
   fst (run (constant_llm ''Let me think about it.'') (constant_tool ''ok'')
          (snd (run (constant_llm ''Let me think about it.'') (constant_tool ''ok'')
                  ((AgentWorker ''agent-0'' ''lfm2-1.2b'')\<lparr>max_iterations := 1\<rparr>) ''Say hello''))
          ''Say hello'') =
     Inr (MaxIterations ''agent-0''
            [\<lparr>iteration = 1, response = ''Let me think about it.'',
              parsed = Thought ''Let me think about it.''\<rparr>,
             \<lparr>iteration = 1, response = ''Let me think about it.'',
              parsed = Thought ''Let me think about it.''\<rparr>] 1)"
proof -
  have f: "force_tool_use ''Say hello'' ''Let me think about it.'' = ''Let me think about it.''"
    by (simp add: force_tool_use_def lower_def lower_char_def)
  show ?thesis
    by (simp add: run_def AgentWorker_def constant_llm_def f parse_thought last_three_def Let_def)
qed

section \<open>The orchestrator\<close>

lemma fst_collect [simp]: "fst (collect run_agent p) = fst p"
  by (cases p) (simp add: collect_def split: sum.splits)

lemma insort_key_map_collect:
  "insort_key fst (collect run_agent p) (map (collect run_agent) ps) =
     map (collect run_agent) (insort_key fst p ps)"
  by (induction ps) simp_all

lemma sort_key_map_collect:
  "sort_key fst (map (collect run_agent) ps) = map (collect run_agent) (sort_key fst ps)"
  by (induction ps) (simp_all add: insort_key_map_collect)

lemma filter_key_distinct:
  "distinct (map f ys) \<Longrightarrow> k \<in> set ys \<Longrightarrow> filter (\<lambda>x. f k = f x) ys = [k]"
proof (induction ys)
  case Nil
  then show ?case by simp
next
  case (Cons y ys)
  show ?case
  proof (cases "k = y")
    case True
    have "\<forall>x\<in>set ys. f y \<noteq> f x" using Cons.prems(1) by auto
    then have "filter (\<lambda>x. f y = f x) ys = []" by (simp add: filter_empty_conv)
    then show ?thesis using True by simp
  next
    case False
    then have kin: "k \<in> set ys" using Cons.prems(2) by simp
    then have "f k \<in> f ` set ys" by simp
    moreover have "f y \<notin> f ` set ys" using Cons.prems(1) by simp
    ultimately have "f k \<noteq> f y" by auto
    then show ?thesis using Cons.IH kin Cons.prems(1) by simp
  qed
qed

lemma sort_key_fst_enumerate:
  assumes "mset ps = mset (enumerate n xs)"
  shows "sort_key fst ps = enumerate n xs"
proof (rule properties_for_sort_key)
  show "mset (enumerate n xs) = mset ps" using assms by simp
  show "sorted (map fst (enumerate n xs))" by simp
next
  fix k assume k: "k \<in> set (enumerate n xs)"
  have d1: "distinct (map fst (enumerate n xs))" by simp
  have "image_mset fst (mset ps) = image_mset fst (mset (enumerate n xs))"
    using assms by (rule arg_cong)
  then have "mset (map fst ps) = mset (map fst (enumerate n xs))" by (simp only: mset_map)
  then have d2: "distinct (map fst ps)" using d1 mset_eq_imp_distinct_iff by blast
  have kin: "k \<in> set ps" using k assms mset_eq_setD by blast
  show "filter (\<lambda>x. fst k = fst x) (enumerate n xs) = filter (\<lambda>x. fst k = fst x) ps"
    using filter_key_distinct [OF d1 k] filter_key_distinct [OF d2 kin] by simp
qed

lemma execute_parallel_eq:
  assumes "mset (as_completed (enumerate 0 subtasks)) = mset (enumerate 0 subtasks)"
  shows "execute_parallel run_agent as_completed subtasks =
           map (\<lambda>p. snd (collect run_agent p)) (enumerate 0 subtasks)"
proof -
  have "sort_key fst (as_completed (enumerate 0 subtasks)) = enumerate 0 subtasks"
    using assms by (rule sort_key_fst_enumerate)
  then show ?thesis
    by (simp add: execute_parallel_def Let_def sort_key_map_collect comp_def)
qed

lemma execute_parallel_nth:
  assumes "mset (as_completed (enumerate 0 subtasks)) = mset (enumerate 0 subtasks)"
    and "i < length subtasks"
  shows "execute_parallel run_agent as_completed subtasks ! i =
           (case run_agent i (subtasks ! i) of Inr res \<Rightarrow> res | Inl e \<Rightarrow> error_result e)"
proof -
  have "execute_parallel run_agent as_completed subtasks =
           map (\<lambda>p. snd (collect run_agent p)) (enumerate 0 subtasks)"
    using assms(1) by (rule execute_parallel_eq)
  then show ?thesis
    using assms(2) by (simp add: nth_enumerate_eq collect_def split: sum.splits)
qed

text \<open>
  C4: whatever the order in which the futures complete (\<open>as_completed\<close> gives each
  submitted future once, in any order), \<open>execute_parallel\<close> returns one result for each
  subtask, and the result at index \<open>i\<close> is the one produced for \<open>subtasks[i]\<close>.
\<close>

theorem results_index_aligned:
  assumes "mset (as_completed (enumerate 0 subtasks)) = mset (enumerate 0 subtasks)"
  shows "length (execute_parallel run_agent as_completed subtasks) = length subtasks \<and>
         (\<forall>i < length subtasks.
            execute_parallel run_agent as_completed subtasks ! i =
              (case run_agent i (subtasks ! i) of Inr res \<Rightarrow> res | Inl e \<Rightarrow> error_result e))"
proof -
  have "execute_parallel run_agent as_completed subtasks =
           map (\<lambda>p. snd (collect run_agent p)) (enumerate 0 subtasks)"
    using assms by (rule execute_parallel_eq)
  then have "length (execute_parallel run_agent as_completed subtasks) = length subtasks"
    by simp
  moreover have "\<forall>i < length subtasks.
            execute_parallel run_agent as_completed subtasks ! i =
              (case run_agent i (subtasks ! i) of Inr res \<Rightarrow> res | Inl e \<Rightarrow> error_result e)"
    using assms by (simp add: execute_parallel_nth)
  ultimately show ?thesis by simp
qed

theorem results_index_aligned_witness:
  "execute_parallel
     (\<lambda>i task. if i = 1 then Inl ''boom'' else Inr (Complete ''agent'' task 1))
     rev [''a'', ''b'', ''c''] =
   [Complete ''agent'' ''a'' 1, error_result ''boom'', Complete ''agent'' ''c'' 1]"
proof -
  have h: "mset (rev (enumerate 0 [''a'', ''b'', ''c''])) = mset (enumerate 0 [''a'', ''b'', ''c''])"
    by simp
  have "\<forall>i < length [''a'', ''b'', ''c''].
      execute_parallel
        (\<lambda>i task. if i = 1 then Inl ''boom'' else Inr (Complete ''agent'' task 1))
        rev [''a'', ''b'', ''c''] ! i =
      [Complete ''agent'' ''a'' 1, error_result ''boom'', Complete ''agent'' ''c'' 1] ! i"
    using results_index_aligned [where as_completed = rev and subtasks = "[''a'', ''b'', ''c'']"
        and run_agent = "\<lambda>i task. if i = 1 then Inl ''boom'' else Inr (Complete ''agent'' task 1)",
        OF h]
    by (auto simp: less_Suc_eq numeral_3_eq_3)
  moreover have "length (execute_parallel
        (\<lambda>i task. if i = 1 then Inl ''boom'' else Inr (Complete ''agent'' task 1))
        rev [''a'', ''b'', ''c'']) = 3"
    using results_index_aligned [where as_completed = rev and subtasks = "[''a'', ''b'', ''c'']"
        and run_agent = "\<lambda>i task. if i = 1 then Inl ''boom'' else Inr (Complete ''agent'' task 1)",
        OF h]
    by simp
  ultimately show ?thesis by (simp add: list_eq_iff_nth_eq)
qed

text \<open>
  C5: when the agent of subtask \<open>j\<close> raises an exception with text \<open>e\<close>,
  \<open>execute_parallel\<close> still returns one result for each subtask; the result at index
  \<open>j\<close> has status \<open>error\<close>, the answer \<open>Agent error: e\<close> and zero iterations, and every
  subtask whose agent returned has the returned result at its index.
\<close>

theorem worker_isolation:
  assumes "mset (as_completed (enumerate 0 subtasks)) = mset (enumerate 0 subtasks)"
    and "j < length subtasks"
    and "run_agent j (subtasks ! j) = Inl e"
  shows "length (execute_parallel run_agent as_completed subtasks) = length subtasks \<and>
         execute_parallel run_agent as_completed subtasks ! j = AgentError (''Agent error: '' @ e) 0 \<and>
         status (execute_parallel run_agent as_completed subtasks ! j) = ''error'' \<and>
         iterations (execute_parallel run_agent as_completed subtasks ! j) = 0 \<and>
         (\<forall>i < length subtasks. \<forall>res. run_agent i (subtasks ! i) = Inr res \<longrightarrow>
            execute_parallel run_agent as_completed subtasks ! i = res)"
proof -
  have nth: "\<And>i. i < length subtasks \<Longrightarrow>
            execute_parallel run_agent as_completed subtasks ! i =
              (case run_agent i (subtasks ! i) of Inr res \<Rightarrow> res | Inl e \<Rightarrow> error_result e)"
    using assms(1) by (rule execute_parallel_nth)
  have "execute_parallel run_agent as_completed subtasks =
           map (\<lambda>p. snd (collect run_agent p)) (enumerate 0 subtasks)"
    using assms(1) by (rule execute_parallel_eq)
  then have len: "length (execute_parallel run_agent as_completed subtasks) = length subtasks"
    by simp
  have "execute_parallel run_agent as_completed subtasks ! j = AgentError (''Agent error: '' @ e) 0"
    using nth [OF assms(2)] assms(3) by (simp add: error_result_def)
  moreover have "\<forall>i < length subtasks. \<forall>res. run_agent i (subtasks ! i) = Inr res \<longrightarrow>
            execute_parallel run_agent as_completed subtasks ! i = res"
    using nth by simp
  ultimately show ?thesis using len by simp
qed

theorem worker_isolation_witness:
  "execute_parallel
     (\<lambda>i task. if i = 1 then Inl ''boom'' else Inr (Complete ''agent'' task 1))
     rev [''a'', ''b'', ''c''] ! 1 = AgentError ''Agent error: boom'' 0 \<and>
   execute_parallel
     (\<lambda>i task. if i = 1 then Inl ''boom'' else Inr (Complete ''agent'' task 1))
     rev [''a'', ''b'', ''c''] ! 2 = Complete ''agent'' ''c'' 1"
proof -
  have h1: "mset (rev (enumerate 0 [''a'', ''b'', ''c''])) = mset (enumerate 0 [''a'', ''b'', ''c''])"
    by simp
  have h2: "1 < length [''a'', ''b'', ''c'']" by simp
  have h3: "(\<lambda>i task. if i = 1 then Inl ''boom'' else Inr (Complete ''agent'' task 1))
              (1::nat) ([''a'', ''b'', ''c''] ! 1) = Inl ''boom''"
    by simp
  show ?thesis
    using worker_isolation [where as_completed = rev and subtasks = "[''a'', ''b'', ''c'']"
        and run_agent = "\<lambda>i task. if i = 1 then Inl ''boom'' else Inr (Complete ''agent'' task 1)"
        and j = 1 and e = "''boom''", OF h1 h2 h3]
    by (auto simp: numeral_3_eq_3 numeral_2_eq_2)
qed

end
